theory Spec2Isabelle
  imports Main
begin

section \<open>Strings of the source\<close>

text \<open>
  A Python \<open>str\<close> is a sequence of Unicode code points, and \<open>len\<close> counts code points.
  A character is modelled by its code point, a string by the list of its code points.
\<close>

type_synonym pychar = nat
type_synonym pystr = "nat list"

definition str :: "string \<Rightarrow> pystr" where
  "str s = map of_char s"

text \<open>
  \<open>str.upper()\<close> is a built-in of the language, not code of the repository. It maps each
  character on its own to one or more characters (\<open>'a'\<close> to \<open>'A'\<close>, but also \<open>U+00DF\<close> to
  \<open>'SS'\<close>), and concatenates. The per-character table \<open>up\<close> is a parameter of the model.
\<close>

definition upper :: "(pychar \<Rightarrow> pystr) \<Rightarrow> pystr \<Rightarrow> pystr" where
  "upper up s = concat (map up s)"

text \<open>
  What the development assumes of the built-in table, where it assumes anything:
  on ASCII it changes exactly \<open>a..z\<close>, and no character it produces is changed by it again.
\<close>

definition ascii_upper :: "(pychar \<Rightarrow> pystr) \<Rightarrow> bool" where
  "ascii_upper up \<longleftrightarrow>
     (\<forall>c < 128. up c = [if 97 \<le> c \<and> c \<le> 122 then c - 32 else c])"

definition stable_upper :: "(pychar \<Rightarrow> pystr) \<Rightarrow> bool" where
  "stable_upper up \<longleftrightarrow> (\<forall>c. \<forall>d \<in> set (up c). up d = [d])"

text \<open>
  The table of \<open>str.upper()\<close> on the code points \<open>U+0000..U+00FF\<close>; code points above
  are left as they are by this instance.
\<close>

definition upper_latin1 :: "pychar \<Rightarrow> pystr" where
  "upper_latin1 c =
     (if 97 \<le> c \<and> c \<le> 122 then [c - 32]
      else if c = 181 then [924]
      else if c = 223 then [83, 83]
      else if 224 \<le> c \<and> c \<le> 254 \<and> c \<noteq> 247 then [c - 32]
      else if c = 255 then [376]
      else [c])"

text \<open>The rendering of an \<open>int\<close> inside an f-string.\<close>

function digits :: "nat \<Rightarrow> pystr" where
  "digits n = (if n < 10 then [48 + n] else digits (n div 10) @ [48 + n mod 10])"
  by pat_completeness auto
termination
  by (relation "measure id") auto

definition format_int :: "int \<Rightarrow> pystr" where
  "format_int i = (if i < 0 then 45 # digits (nat (- i)) else digits (nat i))"

section \<open>Constants of the module\<close>

type_synonym RotorPositionT = "int \<times> int \<times> int"
type_synonym RotorSelectionT = "pystr \<times> pystr \<times> pystr"

definition abc :: pystr where
  "abc = str ''ABCDEFGHIJKLMNOPQRSTUVWXYZ''"

definition rotor1 :: pystr where "rotor1 = str ''EGZWVONAHDCLFQMSIPJBYUKXTR''"
definition rotor2 :: pystr where "rotor2 = str ''FOBHMDKEXQNRAULPGSJVTYICZW''"
definition rotor3 :: pystr where "rotor3 = str ''ZJXESIUQLHAVRMDOYGTNFWPBKC''"

definition reflector :: "pychar \<rightharpoonup> pychar" where
  "reflector = map_of (map (\<lambda>(k, v). (of_char k, of_char v))
     [(CHR ''A'', CHR ''N''), (CHR ''N'', CHR ''A''),
      (CHR ''B'', CHR ''O''), (CHR ''O'', CHR ''B''),
      (CHR ''C'', CHR ''P''), (CHR ''P'', CHR ''C''),
      (CHR ''D'', CHR ''Q''), (CHR ''Q'', CHR ''D''),
      (CHR ''E'', CHR ''R''), (CHR ''R'', CHR ''E''),
      (CHR ''F'', CHR ''S''), (CHR ''S'', CHR ''F''),
      (CHR ''G'', CHR ''T''), (CHR ''T'', CHR ''G''),
      (CHR ''H'', CHR ''U''), (CHR ''U'', CHR ''H''),
      (CHR ''I'', CHR ''V''), (CHR ''V'', CHR ''I''),
      (CHR ''J'', CHR ''W''), (CHR ''W'', CHR ''J''),
      (CHR ''K'', CHR ''X''), (CHR ''X'', CHR ''K''),
      (CHR ''L'', CHR ''Y''), (CHR ''Y'', CHR ''L''),
      (CHR ''M'', CHR ''Z''), (CHR ''Z'', CHR ''M'')])"

definition rotor4 :: pystr where "rotor4 = str ''RMDJXFUWGISLHVTCQNKYPBEZOA''"
definition rotor5 :: pystr where "rotor5 = str ''SGLCPQWZHKXAREONTFBVIYJUDM''"
definition rotor6 :: pystr where "rotor6 = str ''HVSICLTYKQUBXDWAJZOMFGPREN''"
definition rotor7 :: pystr where "rotor7 = str ''RZWQHFMVDBKICJLNTUXAGYPSOE''"
definition rotor8 :: pystr where "rotor8 = str ''LFKIJODBEGAMQPXVUHYSTCZRWN''"
definition rotor9 :: pystr where "rotor9 = str ''KOAEGVDHXPQZMLFTYWJNBRCIUS''"

definition rotor_list :: "pystr list" where
  "rotor_list = [rotor1, rotor2, rotor3, rotor4, rotor5, rotor6, rotor7, rotor8, rotor9]"

section \<open>Errors\<close>

text \<open>
  Every \<open>raise\<close> of \<open>_validator\<close> and \<open>_plugboard\<close> is a constructor of
  \<open>validation_error\<close>, carrying what the message interpolates. The \<open>TypeError\<close> of
  \<open>_plugboard\<close> needs an argument that is no \<open>str\<close>, which the type of the model
  excludes. The three other errors are those of the look-ups in the loop of \<open>enigma\<close>:
  \<open>s[i]\<close> out of range, \<open>s.index(c)\<close> without a match, \<open>d[k]\<close> without the key.
\<close>

datatype slot = First | Second | Third

datatype validation_error =
    DuplicateRotor nat
  | PositionOutOfRange slot int
  | OddPlugboardLength nat
  | InvalidPlugboardSymbol pychar
  | DuplicatePlugboardSymbol pychar

datatype pyerror = Invalid validation_error | IndexError | ValueError | KeyError

datatype exc_class = ExceptionT | ValueErrorT

text \<open>The exception object a validation failure raises: its class and its message.\<close>

fun raised :: "validation_error \<Rightarrow> exc_class \<times> pystr" where
  "raised (DuplicateRotor unique_rotsel) =
     (ExceptionT, str ''Please use 3 unique rotors (not '' @ format_int (int unique_rotsel) @ str '')'')"
| "raised (PositionOutOfRange First rotorpos1) =
     (ValueErrorT, str ''First rotor position is not within range of 1..26 ('' @ format_int rotorpos1)"
| "raised (PositionOutOfRange Second rotorpos2) =
     (ValueErrorT, str ''Second rotor position is not within range of 1..26 ('' @ format_int rotorpos2 @ str '')'')"
| "raised (PositionOutOfRange Third rotorpos3) =
     (ValueErrorT, str ''Third rotor position is not within range of 1..26 ('' @ format_int rotorpos3 @ str '')'')"
| "raised (OddPlugboardLength n) =
     (ExceptionT, str ''Odd number of symbols ('' @ format_int (int n) @ str '')'')"
| "raised (InvalidPlugboardSymbol i) =
     (ExceptionT, [39, i, 39] @ str '' not in list of symbols'')"
| "raised (DuplicatePlugboardSymbol i) =
     (ExceptionT, str ''Duplicate symbol ('' @ [i] @ str '')'')"

text \<open>The failure causes the specification names.\<close>

datatype cause =
    CDuplicateRotor | CPositionOutOfRange slot | COddPlugboardLength
  | CInvalidPlugboardSymbol | CDuplicatePlugboardSymbol

fun cause_of :: "validation_error \<Rightarrow> cause" where
  "cause_of (DuplicateRotor _) = CDuplicateRotor"
| "cause_of (PositionOutOfRange s _) = CPositionOutOfRange s"
| "cause_of (OddPlugboardLength _) = COddPlugboardLength"
| "cause_of (InvalidPlugboardSymbol _) = CInvalidPlugboardSymbol"
| "cause_of (DuplicatePlugboardSymbol _) = CDuplicatePlugboardSymbol"

section \<open>The plugboard builder\<close>

text \<open>
  The loop \<open>for i in pbstring\<close> with the set \<open>tmppbl\<close> of the symbols seen so far.
\<close>

fun check_symbols :: "pystr \<Rightarrow> pychar set \<Rightarrow> pyerror + unit" where
  "check_symbols [] tmppbl = Inr ()"
| "check_symbols (i # rest) tmppbl =
     (if i \<notin> set abc then Inl (Invalid (InvalidPlugboardSymbol i))
      else if i \<in> tmppbl then Inl (Invalid (DuplicatePlugboardSymbol i))
      else check_symbols rest (insert i tmppbl))"

text \<open>
  The loop \<open>for j in range(0, len(pbstring) - 1, 2)\<close>: it visits the even \<open>j\<close> with
  \<open>j + 1 < len(pbstring)\<close>, that is, it takes the characters two at a time for as long as
  two are left.
\<close>

fun make_pairs :: "pystr \<Rightarrow> (pychar \<rightharpoonup> pychar) \<Rightarrow> (pychar \<rightharpoonup> pychar)" where
  "make_pairs (a # b # rest) pb = make_pairs rest ((pb(a \<mapsto> b))(b \<mapsto> a))"
| "make_pairs _ pb = pb"

text \<open>
  \<open>_plugboard\<close>. The statement \<open>pbstring.replace(" ", "")\<close> between the length check and
  the loops computes a new string and drops it: \<open>pbstring\<close> is the same before and after.
\<close>

definition plugboard :: "pystr \<Rightarrow> pyerror + (pychar \<rightharpoonup> pychar)" where
  "plugboard pbstring =
     (if length pbstring mod 2 \<noteq> 0 then Inl (Invalid (OddPlugboardLength (length pbstring)))
      else if pbstring = [] then Inr Map.empty
      else (case check_symbols pbstring {} of
              Inl e \<Rightarrow> Inl e
            | Inr _ \<Rightarrow> Inr (make_pairs pbstring Map.empty)))"

section \<open>The validator\<close>

definition validator ::
  "RotorPositionT \<Rightarrow> RotorSelectionT \<Rightarrow> pystr
     \<Rightarrow> pyerror + (RotorPositionT \<times> RotorSelectionT \<times> (pychar \<rightharpoonup> pychar))" where
  "validator rotpos rotsel pb =
     (case rotsel of (s1, s2, s3) \<Rightarrow>
      case rotpos of (rotorpos1, rotorpos2, rotorpos3) \<Rightarrow>
      let unique_rotsel = card (set [s1, s2, s3]) in
      if unique_rotsel < 3 then Inl (Invalid (DuplicateRotor unique_rotsel))
      else if \<not> (0 < rotorpos1 \<and> rotorpos1 \<le> int (length abc))
        then Inl (Invalid (PositionOutOfRange First rotorpos1))
      else if \<not> (0 < rotorpos2 \<and> rotorpos2 \<le> int (length abc))
        then Inl (Invalid (PositionOutOfRange Second rotorpos2))
      else if \<not> (0 < rotorpos3 \<and> rotorpos3 \<le> int (length abc))
        then Inl (Invalid (PositionOutOfRange Third rotorpos3))
      else (case plugboard pb of
              Inl e \<Rightarrow> Inl e
            | Inr pbdict \<Rightarrow> Inr (rotpos, rotsel, pbdict)))"

section \<open>The cipher\<close>

text \<open>\<open>s[i]\<close>: a negative index counts from the end; out of range raises.\<close>

definition getitem :: "pystr \<Rightarrow> int \<Rightarrow> pyerror + pychar" where
  "getitem s i =
     (let n = int (length s); j = (if i < 0 then i + n else i)
      in if 0 \<le> j \<and> j < n then Inr (s ! nat j) else Inl IndexError)"

text \<open>\<open>s.index(c)\<close> for a one-character \<open>c\<close>: the first position of \<open>c\<close>, or it raises.\<close>

fun index_of :: "pystr \<Rightarrow> pychar \<Rightarrow> pyerror + nat" where
  "index_of [] c = Inl ValueError"
| "index_of (x # xs) c =
     (if x = c then Inr 0
      else (case index_of xs c of Inl e \<Rightarrow> Inl e | Inr i \<Rightarrow> Inr (Suc i)))"

definition bind :: "pyerror + 'a \<Rightarrow> ('a \<Rightarrow> pyerror + 'b) \<Rightarrow> pyerror + 'b" where
  "bind m f = (case m of Inl e \<Rightarrow> Inl e | Inr v \<Rightarrow> f v)"

text \<open>\<open>if symbol in plugboard: symbol = plugboard[symbol]\<close>\<close>

definition plug :: "(pychar \<rightharpoonup> pychar) \<Rightarrow> pychar \<Rightarrow> pychar" where
  "plug pb symbol = (case pb symbol of Some s \<Rightarrow> s | None \<Rightarrow> symbol)"

text \<open>\<open>index = abc.index(symbol) + rotorpos; symbol = rotor[index % len(abc)]\<close>\<close>

definition forward :: "pystr \<Rightarrow> int \<Rightarrow> pychar \<Rightarrow> pyerror + pychar" where
  "forward rotor rotorpos symbol =
     bind (index_of abc symbol)
       (\<lambda>i. getitem rotor ((int i + rotorpos) mod int (length abc)))"

text \<open>\<open>symbol = reflector[symbol]\<close>\<close>

definition reflect :: "pychar \<Rightarrow> pyerror + pychar" where
  "reflect symbol = (case reflector symbol of None \<Rightarrow> Inl KeyError | Some s \<Rightarrow> Inr s)"

text \<open>\<open>symbol = abc[rotor.index(symbol) - rotorpos]\<close>\<close>

definition backward :: "pystr \<Rightarrow> int \<Rightarrow> pychar \<Rightarrow> pyerror + pychar" where
  "backward rotor rotorpos symbol =
     bind (index_of rotor symbol) (\<lambda>i. getitem abc (int i - rotorpos))"

text \<open>
  The body of the loop for a symbol of the alphabet, up to the second plugboard: the symbol
  appended to \<open>result\<close>, computed with the offsets as they are before they move.
  Inside \<open>enigma\<close> the names \<open>rotor1\<close>, \<open>rotor2\<close>, \<open>rotor3\<close> are the three selected
  wirings; they are \<open>ra\<close>, \<open>rb\<close>, \<open>rc\<close> here, as in the comments of the source.
\<close>

definition encipher ::
  "(pychar \<rightharpoonup> pychar) \<Rightarrow> RotorSelectionT \<Rightarrow> RotorPositionT \<Rightarrow> pychar \<Rightarrow> pyerror + pychar" where
  "encipher pb rotsel rotpos symbol =
     (case rotsel of (ra, rb, rc) \<Rightarrow>
      case rotpos of (rotorpos1, rotorpos2, rotorpos3) \<Rightarrow>
      bind (forward ra rotorpos1 (plug pb symbol)) (\<lambda>symbol.
      bind (forward rb rotorpos2 symbol) (\<lambda>symbol.
      bind (forward rc rotorpos3 symbol) (\<lambda>symbol.
      bind (reflect symbol) (\<lambda>symbol.
      bind (backward rc rotorpos3 symbol) (\<lambda>symbol.
      bind (backward rb rotorpos2 symbol) (\<lambda>symbol.
      bind (backward ra rotorpos1 symbol) (\<lambda>symbol.
      Inr (plug pb symbol)))))))))"

text \<open>"moves/resets rotor positions"\<close>

definition advance :: "RotorPositionT \<Rightarrow> RotorPositionT" where
  "advance rotpos =
     (case rotpos of (rotorpos1, rotorpos2, rotorpos3) \<Rightarrow>
      let rotorpos1 = rotorpos1 + 1;
          (rotorpos1, rotorpos2) =
             (if rotorpos1 \<ge> int (length abc) then (0, rotorpos2 + 1) else (rotorpos1, rotorpos2));
          (rotorpos2, rotorpos3) =
             (if rotorpos2 \<ge> int (length abc) then (0, rotorpos3 + 1) else (rotorpos2, rotorpos3));
          rotorpos3 = (if rotorpos3 \<ge> int (length abc) then 0 else rotorpos3)
      in (rotorpos1, rotorpos2, rotorpos3))"

text \<open>
  The loop \<open>for symbol in text\<close>, from the offsets \<open>rotpos\<close>: the characters appended to
  \<open>result\<close> and the offsets at the end, or the error of the first look-up that fails.
\<close>

fun process ::
  "(pychar \<rightharpoonup> pychar) \<Rightarrow> RotorSelectionT \<Rightarrow> pystr \<Rightarrow> RotorPositionT
     \<Rightarrow> pyerror + (pystr \<times> RotorPositionT)" where
  "process pb rotsel [] rotpos = Inr ([], rotpos)"
| "process pb rotsel (symbol # text) rotpos =
     (if symbol \<in> set abc
      then bind (encipher pb rotsel rotpos symbol) (\<lambda>symbol.
           bind (process pb rotsel text (advance rotpos)) (\<lambda>(result, rotpos).
           Inr (symbol # result, rotpos)))
      else bind (process pb rotsel text rotpos) (\<lambda>(result, rotpos).
           Inr (symbol # result, rotpos)))"

text \<open>\<open>enigma\<close>, with the offsets at the end of the loop beside the string it returns.\<close>

definition enigma_run ::
  "(pychar \<Rightarrow> pystr) \<Rightarrow> pystr \<Rightarrow> RotorPositionT \<Rightarrow> RotorSelectionT \<Rightarrow> pystr
     \<Rightarrow> pyerror + (pystr \<times> RotorPositionT)" where
  "enigma_run up text rotor_position rotor_selection plugb =
     (let text = upper up text in
      bind (validator rotor_position rotor_selection (upper up plugb))
        (\<lambda>(rotor_position, rotor_selection, pbdict).
           case rotor_position of (rotorpos1, rotorpos2, rotorpos3) \<Rightarrow>
             process pbdict rotor_selection text
               (rotorpos1 - 1, rotorpos2 - 1, rotorpos3 - 1)))"

definition enigma ::
  "(pychar \<Rightarrow> pystr) \<Rightarrow> pystr \<Rightarrow> RotorPositionT \<Rightarrow> RotorSelectionT \<Rightarrow> pystr
     \<Rightarrow> pyerror + pystr" where
  "enigma up text rotor_position rotor_selection plugb =
     bind (enigma_run up text rotor_position rotor_selection plugb)
       (\<lambda>(result, rotpos). Inr result)"

section \<open>Predicates of the statements\<close>

text \<open>
  A rotor wiring as the data model describes it: every symbol of the alphabet exactly once.
\<close>

definition wiring :: "pystr \<Rightarrow> bool" where
  "wiring rotor \<longleftrightarrow> distinct rotor \<and> set rotor = set abc"

definition wirings :: "RotorSelectionT \<Rightarrow> bool" where
  "wirings rotsel \<longleftrightarrow> (case rotsel of (ra, rb, rc) \<Rightarrow> wiring ra \<and> wiring rb \<and> wiring rc)"

text \<open>The offsets of the loop, zero-based: each one an index of the alphabet.\<close>

definition in_range :: "RotorPositionT \<Rightarrow> bool" where
  "in_range rotpos \<longleftrightarrow>
     (case rotpos of (p1, p2, p3) \<Rightarrow> 0 \<le> p1 \<and> p1 < 26 \<and> 0 \<le> p2 \<and> p2 < 26 \<and> 0 \<le> p3 \<and> p3 < 26)"

text \<open>A plugboard dictionary in which every entry has its mirror entry.\<close>

definition involutive :: "(pychar \<rightharpoonup> pychar) \<Rightarrow> bool" where
  "involutive pb \<longleftrightarrow> (\<forall>a b. pb a = Some b \<longrightarrow> pb b = Some a)"

text \<open>
  A well-formed plugboard string: an even number of characters, all distinct, all of the
  alphabet.
\<close>

definition well_formed_spec :: "pystr \<Rightarrow> bool" where
  "well_formed_spec pbstring \<longleftrightarrow>
     even (length pbstring) \<and> distinct pbstring \<and> set pbstring \<subseteq> set abc"

text \<open>The characters of a string that the loop enciphers.\<close>

definition letters :: "pystr \<Rightarrow> pystr" where
  "letters s = filter (\<lambda>c. c \<in> set abc) s"

text \<open>
  \<open>t\<close> has the length of \<open>s\<close>, a symbol of the alphabet wherever \<open>s\<close> has one, and the
  character of \<open>s\<close> everywhere else.
\<close>

definition same_shape :: "pystr \<Rightarrow> pystr \<Rightarrow> bool" where
  "same_shape s t \<longleftrightarrow> length t = length s \<and>
     (\<forall>i < length s. if s ! i \<in> set abc then t ! i \<in> set abc else t ! i = s ! i)"

text \<open>
  The offsets at the start of the loop: \<open>rotorpos1 -= 1\<close>, \<open>rotorpos2 -= 1\<close>,
  \<open>rotorpos3 -= 1\<close>.
\<close>

definition start_offsets :: "RotorPositionT \<Rightarrow> RotorPositionT" where
  "start_offsets rotor_position =
     (case rotor_position of (rotorpos1, rotorpos2, rotorpos3) \<Rightarrow>
        (rotorpos1 - 1, rotorpos2 - 1, rotorpos3 - 1))"

text \<open>
  The three offsets as the digits, base 26, of a count of enciphered symbols: the first
  rotor is the lowest digit.
\<close>

definition offsets_of :: "nat \<Rightarrow> RotorPositionT" where
  "offsets_of n = (int (n mod 26), int (n div 26 mod 26), int (n div 26 div 26 mod 26))"

section \<open>Auxiliary facts\<close>

subsection \<open>The alphabet and the look-ups\<close>

lemma abc_upt: "abc = [65..<91]"
  by (simp add: abc_def str_def)

lemma length_abc: "length abc = 26"
  by (simp add: abc_def str_def)

lemma distinct_abc: "distinct abc"
  unfolding abc_upt by (rule distinct_upt)

lemma in_abc: "c \<in> set abc \<longleftrightarrow> 65 \<le> c \<and> c \<le> 90"
proof -
  have "set abc = {65..<91}"
    unfolding abc_upt by (rule set_upt)
  then show ?thesis by auto
qed

lemma abc_nth: "i < 26 \<Longrightarrow> abc ! i = 65 + i"
  unfolding abc_upt by (rule nth_upt) simp

lemma index_of_bound: "index_of xs c = Inr i \<Longrightarrow> i < length xs \<and> xs ! i = c"
  by (induction xs arbitrary: i) (auto split: if_splits sum.splits)

lemma index_of_mem: "c \<in> set xs \<Longrightarrow> \<exists>i. index_of xs c = Inr i"
  by (induction xs) auto

lemma index_of_nth: "distinct xs \<Longrightarrow> i < length xs \<Longrightarrow> index_of xs (xs ! i) = Inr i"
proof (induction xs arbitrary: i)
  case Nil
  then show ?case by simp
next
  case (Cons x xs)
  show ?case
  proof (cases i)
    case 0
    then show ?thesis by simp
  next
    case (Suc j)
    with Cons.prems have "xs ! j \<noteq> x" "index_of xs (xs ! j) = Inr j"
      using Cons.IH by auto
    with Suc show ?thesis by auto
  qed
qed

lemma index_of_abc: "c \<in> set abc \<Longrightarrow> index_of abc c = Inr (c - 65)"
proof -
  assume c: "c \<in> set abc"
  then have "c - 65 < length abc" "abc ! (c - 65) = c"
    by (auto simp add: in_abc length_abc abc_nth)
  then show ?thesis
    using index_of_nth [OF distinct_abc, of "c - 65"] by simp
qed

subsection \<open>One rotor, there and back\<close>

lemma mod26_wrap: "0 \<le> n \<Longrightarrow> n < 52 \<Longrightarrow> (n::int) mod 26 = (if n < 26 then n else n - 26)"
proof (cases "n < 26")
  case True
  assume "0 \<le> n"
  with True show ?thesis by simp
next
  case False
  assume "n < 52"
  with False have "(n - 26) mod 26 = n - 26"
    by (intro mod_pos_pos_trivial) auto
  moreover have "(n - 26) mod 26 = n mod 26"
    by (rule minus_mod_self2)
  ultimately have "n mod 26 = n - 26" by linarith
  with False show ?thesis by simp
qed

lemma mod26_neg: "- 26 < n \<Longrightarrow> n < 26 \<Longrightarrow> (n::int) mod 26 = (if n < 0 then n + 26 else n)"
proof (cases "n < 0")
  case True
  assume "- 26 < n"
  with True have "(n + 26) mod 26 = n + 26"
    by (intro mod_pos_pos_trivial) auto
  moreover have "(n + 26) mod 26 = n mod 26"
    by (rule mod_add_self2)
  ultimately have "n mod 26 = n + 26" by linarith
  with True show ?thesis by simp
next
  case False
  assume "n < 26"
  with False show ?thesis by simp
qed

lemma wiring_length: "wiring r \<Longrightarrow> length r = 26"
proof -
  assume w: "wiring r"
  then have "distinct r" "set r = set abc"
    by (simp_all add: wiring_def)
  then have "length r = card (set abc)"
    using distinct_card [of r] by simp
  also have "\<dots> = 26"
    using distinct_card [OF distinct_abc] length_abc by simp
  finally show ?thesis .
qed

lemma getitem_nonneg: "0 \<le> i \<Longrightarrow> i < int (length s) \<Longrightarrow> getitem s i = Inr (s ! nat i)"
  by (simp add: getitem_def Let_def)

lemma getitem_neg: "i < 0 \<Longrightarrow> - int (length s) \<le> i \<Longrightarrow> getitem s i = Inr (s ! nat (i + int (length s)))"
  by (simp add: getitem_def Let_def)

lemma getitem_abc:
  assumes "- 26 < i" "i < 26"
  shows "getitem abc i = Inr (65 + nat (i mod 26))"
proof (cases "0 \<le> i")
  case True
  with assms show ?thesis
    by (simp add: getitem_nonneg length_abc abc_nth)
next
  case False
  with assms have "i mod 26 = i + 26"
    by (simp add: mod26_neg)
  with False assms show ?thesis
    by (simp add: getitem_neg length_abc abc_nth)
qed

lemma forward_backward:
  assumes w: "wiring r" and p: "0 \<le> p" "p < 26" and c: "c \<in> set abc"
  shows "\<exists>d. forward r p c = Inr d \<and> d \<in> set abc \<and> backward r p d = Inr c"
proof -
  define i where "i = c - 65"
  define k where "k = nat ((int i + p) mod 26)"
  have i: "i < 26" "c = 65 + i"
    using c by (auto simp add: i_def in_abc)
  have k: "k < 26" "int k = (int i + p) mod 26"
    by (simp_all add: k_def nat_less_iff)
  have len: "length r = 26"
    using w by (rule wiring_length)
  have fw: "forward r p c = Inr (r ! k)"
    using k by (simp add: forward_def bind_def index_of_abc [OF c] length_abc
        getitem_nonneg len k_def flip: i_def)
  have "r ! k \<in> set r"
    using k len by simp
  then have mem: "r ! k \<in> set abc"
    using w by (simp add: wiring_def)
  have idx: "index_of r (r ! k) = Inr k"
    using w k len by (simp add: index_of_nth wiring_def)
  have "int k = (if int i + p < 26 then int i + p else int i + p - 26)"
    using mod26_wrap [of "int i + p"] k(2) p i(1) by simp
  then have rng: "- 26 < int k - p" "int k - p < 26"
    and m: "(int k - p) mod 26 = int i"
    using i(1) p by (auto simp add: mod26_neg split: if_splits)
  have "getitem abc (int k - p) = Inr c"
    using getitem_abc [OF rng] i(2) by (simp only: m nat_int)
  with idx have "backward r p (r ! k) = Inr c"
    by (simp add: backward_def bind_def)
  with fw mem show ?thesis by blast
qed

lemma backward_forward:
  assumes w: "wiring r" and p: "0 \<le> p" "p < 26" and d: "d \<in> set abc"
  shows "\<exists>c. backward r p d = Inr c \<and> c \<in> set abc \<and> forward r p c = Inr d"
proof -
  have len: "length r = 26"
    using w by (rule wiring_length)
  from d w obtain k where idx: "index_of r d = Inr k"
    using index_of_mem [of d r] by (auto simp add: wiring_def)
  then have k: "k < 26" "r ! k = d"
    using index_of_bound [OF idx] len by auto
  define i where "i = nat ((int k - p) mod 26)"
  have i: "i < 26" "int i = (int k - p) mod 26"
    by (simp_all add: i_def nat_less_iff)
  have rng: "- 26 < int k - p" "int k - p < 26"
    using k(1) p by auto
  have bw: "backward r p d = Inr (65 + i)"
    using getitem_abc [OF rng] idx by (simp add: backward_def bind_def i_def)
  have mem: "65 + i \<in> set abc"
    using i(1) by (simp add: in_abc)
  have "int i = (if int k - p < 0 then int k - p + 26 else int k - p)"
    using mod26_neg [OF rng] i(2) by simp
  then have "(int i + p) mod 26 = int k"
    using k(1) p mod26_wrap [of "int i + p"] by (auto split: if_splits)
  then have "forward r p (65 + i) = Inr d"
    using k by (simp add: forward_def bind_def index_of_abc [OF mem] length_abc
        getitem_nonneg len)
  with bw mem show ?thesis by blast
qed

subsection \<open>The reflector table\<close>

lemma reflector_rot13:
  "c \<in> set abc \<Longrightarrow> reflector c = Some (if c < 78 then c + 13 else c - 13)"
proof -
  assume "c \<in> set abc"
  then have "c \<in> set (str ''ABCDEFGHIJKLMNOPQRSTUVWXYZ'')"
    by (simp only: abc_def)
  then show ?thesis
    by (auto simp add: reflector_def str_def)
qed

lemma reflector_dom: "dom reflector = set abc"
proof
  show "dom reflector \<subseteq> set abc"
  proof
    fix x
    assume "x \<in> dom reflector"
    then obtain y where "reflector x = Some y" by blast
    then have "(x, y) \<in> set (map (\<lambda>(k, v). (of_char k, of_char v))
     [(CHR ''A'', CHR ''N''), (CHR ''N'', CHR ''A''),
      (CHR ''B'', CHR ''O''), (CHR ''O'', CHR ''B''),
      (CHR ''C'', CHR ''P''), (CHR ''P'', CHR ''C''),
      (CHR ''D'', CHR ''Q''), (CHR ''Q'', CHR ''D''),
      (CHR ''E'', CHR ''R''), (CHR ''R'', CHR ''E''),
      (CHR ''F'', CHR ''S''), (CHR ''S'', CHR ''F''),
      (CHR ''G'', CHR ''T''), (CHR ''T'', CHR ''G''),
      (CHR ''H'', CHR ''U''), (CHR ''U'', CHR ''H''),
      (CHR ''I'', CHR ''V''), (CHR ''V'', CHR ''I''),
      (CHR ''J'', CHR ''W''), (CHR ''W'', CHR ''J''),
      (CHR ''K'', CHR ''X''), (CHR ''X'', CHR ''K''),
      (CHR ''L'', CHR ''Y''), (CHR ''Y'', CHR ''L''),
      (CHR ''M'', CHR ''Z''), (CHR ''Z'', CHR ''M'')])"
      unfolding reflector_def by (rule map_of_SomeD)
    then show "x \<in> set abc"
      by (auto simp add: in_abc)
  qed
  show "set abc \<subseteq> dom reflector"
    using reflector_rot13 by blast
qed

lemma reflect_reflect:
  assumes "c \<in> set abc"
  shows "\<exists>d. reflect c = Inr d \<and> d \<in> set abc \<and> d \<noteq> c \<and> reflect d = Inr c"
proof -
  define d where "d = (if c < 78 then c + 13 else c - 13)"
  have d: "d \<in> set abc" "d \<noteq> c" "(if d < 78 then d + 13 else d - 13) = c"
    using assms by (auto simp add: d_def in_abc)
  have "reflect c = Inr d"
    using reflector_rot13 [OF assms] by (simp add: reflect_def d_def)
  moreover have "reflect d = Inr c"
    using reflector_rot13 [OF d(1)] d(3) by (simp add: reflect_def)
  ultimately show ?thesis using d by blast
qed

subsection \<open>One symbol, then the loop\<close>

lemma plug_plug: "involutive pb \<Longrightarrow> plug pb (plug pb c) = c"
proof (cases "pb c")
  case None
  then show ?thesis by (simp add: plug_def)
next
  case (Some b)
  assume "involutive pb"
  with Some have "pb b = Some c"
    unfolding involutive_def by blast
  with Some show ?thesis by (simp add: plug_def)
qed

lemma plug_abc:
  assumes "involutive pb" "dom pb \<subseteq> set abc" "c \<in> set abc"
  shows "plug pb c \<in> set abc"
proof (cases "pb c")
  case None
  with assms(3) show ?thesis by (simp add: plug_def)
next
  case (Some b)
  with assms(1) have "pb b = Some c"
    unfolding involutive_def by blast
  then have "b \<in> dom pb" by blast
  with assms(2) have "b \<in> set abc" by blast
  with Some show ?thesis by (simp add: plug_def)
qed

lemma encipher_reciprocal:
  assumes w: "wirings rotsel" and r: "in_range rotpos"
    and pb: "involutive pb" "dom pb \<subseteq> set abc" and c: "c \<in> set abc"
  shows "\<exists>d. encipher pb rotsel rotpos c = Inr d \<and> d \<in> set abc
           \<and> encipher pb rotsel rotpos d = Inr c"
proof -
  obtain ra rb rc where rotsel: "rotsel = (ra, rb, rc)"
    by (cases rotsel)
  obtain p1 p2 p3 where rotpos: "rotpos = (p1, p2, p3)"
    by (cases rotpos)
  have wa: "wiring ra" and wb: "wiring rb" and wc: "wiring rc"
    using w by (simp_all add: wirings_def rotsel)
  have p1: "0 \<le> p1" "p1 < 26" and p2: "0 \<le> p2" "p2 < 26" and p3: "0 \<le> p3" "p3 < 26"
    using r by (simp_all add: in_range_def rotpos)
  define c0 where "c0 = plug pb c"
  have c0: "c0 \<in> set abc" "plug pb c0 = c"
    using pb c by (simp_all add: c0_def plug_abc plug_plug)
  obtain c1 where c1: "forward ra p1 c0 = Inr c1" "c1 \<in> set abc" "backward ra p1 c1 = Inr c0"
    using forward_backward [OF wa p1 c0(1)] by blast
  obtain c2 where c2: "forward rb p2 c1 = Inr c2" "c2 \<in> set abc" "backward rb p2 c2 = Inr c1"
    using forward_backward [OF wb p2 c1(2)] by blast
  obtain c3 where c3: "forward rc p3 c2 = Inr c3" "c3 \<in> set abc" "backward rc p3 c3 = Inr c2"
    using forward_backward [OF wc p3 c2(2)] by blast
  obtain c4 where c4: "reflect c3 = Inr c4" "c4 \<in> set abc" "reflect c4 = Inr c3"
    using reflect_reflect [OF c3(2)] by blast
  obtain c5 where c5: "backward rc p3 c4 = Inr c5" "c5 \<in> set abc" "forward rc p3 c5 = Inr c4"
    using backward_forward [OF wc p3 c4(2)] by blast
  obtain c6 where c6: "backward rb p2 c5 = Inr c6" "c6 \<in> set abc" "forward rb p2 c6 = Inr c5"
    using backward_forward [OF wb p2 c5(2)] by blast
  obtain c7 where c7: "backward ra p1 c6 = Inr c7" "c7 \<in> set abc" "forward ra p1 c7 = Inr c6"
    using backward_forward [OF wa p1 c6(2)] by blast
  define d where "d = plug pb c7"
  have d: "d \<in> set abc" "plug pb d = c7"
    using pb c7(2) by (simp_all add: d_def plug_abc plug_plug)
  have "encipher pb rotsel rotpos c = Inr d"
    by (simp add: encipher_def rotsel rotpos bind_def c1(1) c2(1) c3(1) c4(1) c5(1) c6(1) c7(1)
        d_def flip: c0_def)
  moreover have "encipher pb rotsel rotpos d = Inr c"
    by (simp add: encipher_def rotsel rotpos bind_def d(2) c1(3) c2(3) c3(3) c4(3) c5(3) c6(3)
        c7(3) c0(2))
  ultimately show ?thesis using d(1) by blast
qed

lemma in_range_advance: "in_range rotpos \<Longrightarrow> in_range (advance rotpos)"
  by (cases rotpos) (auto simp add: in_range_def advance_def length_abc Let_def)

lemma same_shape_Cons:
  "same_shape (x # s) (y # t) \<longleftrightarrow>
     (if x \<in> set abc then y \<in> set abc else y = x) \<and> same_shape s t"
  by (auto simp add: same_shape_def nth_Cons split: nat.splits)

lemma process_reciprocal:
  assumes w: "wirings rotsel" and pb: "involutive pb" "dom pb \<subseteq> set abc"
  shows "in_range rotpos \<Longrightarrow>
     \<exists>result. process pb rotsel msg rotpos
                 = Inr (result, (advance ^^ length (letters msg)) rotpos)
       \<and> same_shape msg result
       \<and> process pb rotsel result rotpos
                 = Inr (msg, (advance ^^ length (letters msg)) rotpos)"
proof (induction msg arbitrary: rotpos)
  case Nil
  then show ?case by (simp add: letters_def same_shape_def)
next
  case (Cons symbol msg)
  show ?case
  proof (cases "symbol \<in> set abc")
    case True
    obtain d where d: "encipher pb rotsel rotpos symbol = Inr d" "d \<in> set abc"
        "encipher pb rotsel rotpos d = Inr symbol"
      using encipher_reciprocal [OF w Cons.prems pb True] by blast
    obtain result where res:
        "process pb rotsel msg (advance rotpos)
           = Inr (result, (advance ^^ length (letters msg)) (advance rotpos))"
        "same_shape msg result"
        "process pb rotsel result (advance rotpos)
           = Inr (msg, (advance ^^ length (letters msg)) (advance rotpos))"
      using Cons.IH [OF in_range_advance [OF Cons.prems]] by blast
    have n: "(advance ^^ length (letters (symbol # msg))) rotpos
               = (advance ^^ length (letters msg)) (advance rotpos)"
      using True by (simp add: letters_def funpow_swap1)
    have "process pb rotsel (symbol # msg) rotpos
            = Inr (d # result, (advance ^^ length (letters (symbol # msg))) rotpos)"
      using True d(1) res(1) by (simp add: bind_def n)
    moreover have "same_shape (symbol # msg) (d # result)"
      using True d(2) res(2) by (simp add: same_shape_Cons)
    moreover have "process pb rotsel (d # result) rotpos
            = Inr (symbol # msg, (advance ^^ length (letters (symbol # msg))) rotpos)"
      using d(2,3) res(3) by (simp add: bind_def n)
    ultimately show ?thesis by blast
  next
    case False
    obtain result where res:
        "process pb rotsel msg rotpos
           = Inr (result, (advance ^^ length (letters msg)) rotpos)"
        "same_shape msg result"
        "process pb rotsel result rotpos
           = Inr (msg, (advance ^^ length (letters msg)) rotpos)"
      using Cons.IH [OF Cons.prems] by blast
    have n: "letters (symbol # msg) = letters msg"
      using False by (simp add: letters_def)
    have "process pb rotsel (symbol # msg) rotpos
            = Inr (symbol # result, (advance ^^ length (letters (symbol # msg))) rotpos)"
      using False res(1) by (simp add: bind_def n)
    moreover have "same_shape (symbol # msg) (symbol # result)"
      using False res(2) by (simp add: same_shape_Cons)
    moreover have "process pb rotsel (symbol # result) rotpos
            = Inr (symbol # msg, (advance ^^ length (letters (symbol # msg))) rotpos)"
      using False res(3) by (simp add: bind_def n)
    ultimately show ?thesis by blast
  qed
qed

subsection \<open>The plugboard builder\<close>

lemma check_symbols_ok:
  "check_symbols s seen = Inr () \<longleftrightarrow> set s \<subseteq> set abc \<and> distinct s \<and> set s \<inter> seen = {}"
  by (induction s arbitrary: seen) auto

lemma check_symbols_error:
  "check_symbols s seen = Inl e \<Longrightarrow>
     (\<exists>i. e = Invalid (InvalidPlugboardSymbol i)) \<or> (\<exists>i. e = Invalid (DuplicatePlugboardSymbol i))"
  by (induction s arbitrary: seen) (auto split: if_splits)

lemma plugboard_ok_iff:
  "(\<exists>pb. plugboard s = Inr pb) \<longleftrightarrow> well_formed_spec s"
proof (cases "check_symbols s {}")
  case (Inl e)
  then have "\<not> (set s \<subseteq> set abc \<and> distinct s)"
    using check_symbols_ok [of s "{}"] by auto
  with Inl show ?thesis
    by (auto simp add: plugboard_def well_formed_spec_def)
next
  case (Inr u)
  then have "set s \<subseteq> set abc \<and> distinct s"
    using check_symbols_ok [of s "{}"] by simp
  with Inr show ?thesis
    by (auto simp add: plugboard_def well_formed_spec_def)
qed

lemma plugboard_value:
  "plugboard s = Inr pb \<Longrightarrow> pb = make_pairs s Map.empty"
  by (auto simp add: plugboard_def split: if_splits sum.splits)

lemma plugboard_error:
  "plugboard s = Inl e \<Longrightarrow>
     (\<exists>n. e = Invalid (OddPlugboardLength n)) \<or> (\<exists>i. e = Invalid (InvalidPlugboardSymbol i))
       \<or> (\<exists>i. e = Invalid (DuplicatePlugboardSymbol i))"
  using check_symbols_error [of s "{}" e]
  by (auto simp add: plugboard_def split: if_splits sum.splits)

lemma make_pairs_other: "x \<notin> set s \<Longrightarrow> make_pairs s pb x = pb x"
  by (induction s pb rule: make_pairs.induct) auto

lemma involutive_pair:
  assumes inv: "involutive pb" and a: "a \<notin> dom pb" and b: "b \<notin> dom pb"
  shows "involutive ((pb(a \<mapsto> b))(b \<mapsto> a))"
  unfolding involutive_def
proof (intro allI impI)
  fix x y
  assume xy: "((pb(a \<mapsto> b))(b \<mapsto> a)) x = Some y"
  show "((pb(a \<mapsto> b))(b \<mapsto> a)) y = Some x"
  proof (cases "x = a \<or> x = b")
    case True
    with xy show ?thesis by (auto split: if_splits)
  next
    case False
    with xy have pbx: "pb x = Some y" by simp
    with inv have pby: "pb y = Some x"
      unfolding involutive_def by blast
    then have "y \<in> dom pb" by blast
    with a b have "y \<noteq> a" "y \<noteq> b" by auto
    with pby show ?thesis by simp
  qed
qed

lemma make_pairs_involutive:
  "distinct s \<Longrightarrow> even (length s) \<Longrightarrow> involutive pb \<Longrightarrow> dom pb \<inter> set s = {}
     \<Longrightarrow> involutive (make_pairs s pb) \<and> dom (make_pairs s pb) = dom pb \<union> set s"
proof (induction s pb rule: make_pairs.induct)
  case (1 a b rest pb)
  let ?pb = "(pb(a \<mapsto> b))(b \<mapsto> a)"
  have "a \<notin> dom pb" "b \<notin> dom pb"
    using "1.prems"(4) by auto
  then have inv: "involutive ?pb"
    using involutive_pair [OF "1.prems"(3)] by blast
  have dom: "dom ?pb = insert a (insert b (dom pb))"
    by auto
  have disj: "dom ?pb \<inter> set rest = {}"
    using "1.prems"(1,4) unfolding dom by auto
  have rest: "distinct rest" "even (length rest)"
    using "1.prems"(1,2) by simp_all
  note IH = "1.IH" [OF rest inv disj]
  have eq: "make_pairs (a # b # rest) pb = make_pairs rest ?pb"
    by (rule make_pairs.simps(1))
  have "dom ?pb \<union> set rest = dom pb \<union> set (a # b # rest)"
    unfolding dom by auto
  with IH show ?case
    unfolding eq by metis
qed simp_all

lemma plugboard_involutive:
  assumes "plugboard s = Inr pb"
  shows "involutive pb \<and> dom pb = set s \<and> dom pb \<subseteq> set abc"
proof -
  have wf: "well_formed_spec s"
    using assms plugboard_ok_iff [of s] by blast
  have pb: "pb = make_pairs s Map.empty"
    using assms by (rule plugboard_value)
  have "involutive Map.empty"
    by (simp add: involutive_def)
  then have "involutive pb \<and> dom pb = dom (Map.empty :: pychar \<rightharpoonup> pychar) \<union> set s"
    unfolding pb using wf make_pairs_involutive [of s Map.empty]
    by (simp add: well_formed_spec_def)
  with wf show ?thesis
    by (simp add: well_formed_spec_def)
qed

lemma make_pairs_registered:
  "distinct s \<Longrightarrow> 2 * j + 1 < length s \<Longrightarrow>
     make_pairs s pb (s ! (2 * j)) = Some (s ! (2 * j + 1))
       \<and> make_pairs s pb (s ! (2 * j + 1)) = Some (s ! (2 * j))"
proof (induction s pb arbitrary: j rule: make_pairs.induct)
  case (1 a b rest pb)
  let ?pb = "(pb(a \<mapsto> b))(b \<mapsto> a)"
  have eq: "make_pairs (a # b # rest) pb = make_pairs rest ?pb"
    by (rule make_pairs.simps(1))
  show ?case
  proof (cases j)
    case 0
    have "a \<notin> set rest" "b \<notin> set rest" "a \<noteq> b"
      using "1.prems"(1) by auto
    then have "make_pairs rest ?pb a = Some b" "make_pairs rest ?pb b = Some a"
      by (simp_all add: make_pairs_other)
    then show ?thesis
      unfolding eq 0 by simp
  next
    case (Suc k)
    with "1.prems" have rest: "distinct rest" "2 * k + 1 < length rest"
      by auto
    note IH = "1.IH" [OF rest]
    have idx: "(a # b # rest) ! (2 * j) = rest ! (2 * k)"
        "(a # b # rest) ! (2 * j + 1) = rest ! (2 * k + 1)"
      using Suc by simp_all
    show ?thesis
      unfolding eq idx by (rule IH)
  qed
qed simp_all

subsection \<open>The validator and the entry point\<close>

lemma rotors_distinct: "rotor1 \<noteq> rotor2" "rotor1 \<noteq> rotor3" "rotor2 \<noteq> rotor3"
  by (simp_all add: rotor1_def rotor2_def rotor3_def str_def)

lemma raised_cause: "raised v = raised v' \<Longrightarrow> cause_of v = cause_of v'"
  by (cases v rule: raised.cases; cases v' rule: raised.cases; simp add: str_def)

lemma validator_error: "validator rotpos rotsel pb = Inl e \<Longrightarrow> \<exists>v. e = Invalid v"
  using plugboard_error [of pb e]
  by (cases rotpos; cases rotsel)
    (auto simp add: validator_def Let_def split: if_splits sum.splits)

lemma enigma_validator_error:
  "validator rotpos rotsel (upper up plugb) = Inl e \<Longrightarrow> enigma up msg rotpos rotsel plugb = Inl e"
  by (simp add: enigma_def enigma_run_def bind_def)

lemma validator_ok:
  assumes "validator rotpos rotsel pb = Inr cfg"
  shows "\<exists>pbdict. cfg = (rotpos, rotsel, pbdict) \<and> plugboard pb = Inr pbdict
           \<and> in_range (start_offsets rotpos)"
  using assms
  by (cases rotpos; cases rotsel)
    (auto simp add: validator_def Let_def in_range_def start_offsets_def length_abc
      split: if_splits sum.splits)

lemma validator_ok_iff:
  "(\<exists>cfg. validator (p1, p2, p3) (s1, s2, s3) pb = Inr cfg) \<longleftrightarrow>
     card {s1, s2, s3} = 3 \<and> (1 \<le> p1 \<and> p1 \<le> 26) \<and> (1 \<le> p2 \<and> p2 \<le> 26)
       \<and> (1 \<le> p3 \<and> p3 \<le> 26) \<and> well_formed_spec pb"
proof -
  have le3: "card {s1, s2, s3} \<le> 3"
    by (simp add: card_insert_if)
  show ?thesis
  proof (cases "plugboard pb")
    case (Inl e)
    then have "\<not> well_formed_spec pb"
      using plugboard_ok_iff [of pb] by auto
    with Inl show ?thesis
      by (auto simp add: validator_def Let_def)
  next
    case (Inr pbdict)
    then have "well_formed_spec pb"
      using plugboard_ok_iff [of pb] by auto
    with Inr le3 show ?thesis
      by (auto simp add: validator_def Let_def length_abc)
  qed
qed

lemma enigma_run_process:
  assumes "validator rotpos rotsel (upper up plugb) = Inr (rotpos, rotsel, pbdict)"
  shows "enigma_run up msg rotpos rotsel plugb
           = process pbdict rotsel (upper up msg) (start_offsets rotpos)"
  using assms
  by (cases rotpos) (simp add: enigma_run_def bind_def start_offsets_def)

lemma same_shape_set: "same_shape s t \<Longrightarrow> set t \<subseteq> set abc \<union> set s"
proof
  fix x
  assume sh: "same_shape s t" and "x \<in> set t"
  then obtain i where i: "i < length t" "t ! i = x"
    by (auto simp add: in_set_conv_nth)
  with sh have il: "i < length s"
    by (simp add: same_shape_def)
  then have "s ! i \<in> set s"
    by simp
  moreover from sh il have "if s ! i \<in> set abc then t ! i \<in> set abc else t ! i = s ! i"
    unfolding same_shape_def by blast
  ultimately show "x \<in> set abc \<union> set s"
    using i by (auto split: if_splits)
qed

lemma upper_fixed: "\<forall>d \<in> set s. up d = [d] \<Longrightarrow> upper up s = s"
  by (induction s) (simp_all add: upper_def)

lemma upper_stable:
  assumes "stable_upper up"
  shows "\<forall>d \<in> set (upper up s). up d = [d]"
  using assms by (auto simp add: stable_upper_def upper_def)

lemma upper_idem: "stable_upper up \<Longrightarrow> upper up (upper up s) = upper up s"
  by (rule upper_fixed) (rule upper_stable)

lemma upper_abc: "ascii_upper up \<Longrightarrow> d \<in> set abc \<Longrightarrow> up d = [d]"
  by (simp add: ascii_upper_def in_abc)

lemma enigma_run_total:
  assumes v: "validator rotpos rotsel (upper up plugb) = Inr cfg" and w: "wirings rotsel"
  shows "\<exists>result pbdict. cfg = (rotpos, rotsel, pbdict)
      \<and> enigma_run up msg rotpos rotsel plugb
           = Inr (result, (advance ^^ length (letters (upper up msg))) (start_offsets rotpos))
      \<and> same_shape (upper up msg) result
      \<and> process pbdict rotsel result (start_offsets rotpos)
           = Inr (upper up msg, (advance ^^ length (letters (upper up msg))) (start_offsets rotpos))"
proof -
  obtain pbdict where cfg: "cfg = (rotpos, rotsel, pbdict)"
      and pb: "plugboard (upper up plugb) = Inr pbdict"
      and r: "in_range (start_offsets rotpos)"
    using validator_ok [OF v] by blast
  have inv: "involutive pbdict" "dom pbdict \<subseteq> set abc"
    using plugboard_involutive [OF pb] by blast+
  have run: "enigma_run up msg rotpos rotsel plugb
      = process pbdict rotsel (upper up msg) (start_offsets rotpos)"
    using v unfolding cfg by (rule enigma_run_process)
  show ?thesis
    using process_reciprocal [OF w inv r, of "upper up msg"] cfg
    unfolding run by blast
qed

subsection \<open>The rotors of the catalogue\<close>

lemma wiringI:
  assumes "distinct r" "length r = 26" "set r \<subseteq> set abc"
  shows "wiring r"
proof -
  have "card (set r) = 26"
    using assms(1,2) by (simp add: distinct_card)
  moreover have "card (set abc) = 26"
    using distinct_card [OF distinct_abc] length_abc by simp
  ultimately have "set r = set abc"
    using assms(3) by (intro card_subset_eq) simp_all
  with assms(1) show ?thesis
    by (simp add: wiring_def)
qed

lemma wiring_rotor1: "wiring rotor1"
  by (rule wiringI) (simp_all add: rotor1_def str_def in_abc)

lemma wiring_rotor2: "wiring rotor2"
  by (rule wiringI) (simp_all add: rotor2_def str_def in_abc)

lemma wiring_rotor3: "wiring rotor3"
  by (rule wiringI) (simp_all add: rotor3_def str_def in_abc)

lemma wiring_rotor4: "wiring rotor4"
  by (rule wiringI) (simp_all add: rotor4_def str_def in_abc)

lemma wiring_rotor5: "wiring rotor5"
  by (rule wiringI) (simp_all add: rotor5_def str_def in_abc)

lemma wiring_rotor6: "wiring rotor6"
  by (rule wiringI) (simp_all add: rotor6_def str_def in_abc)

lemma wiring_rotor7: "wiring rotor7"
  by (rule wiringI) (simp_all add: rotor7_def str_def in_abc)

lemma wiring_rotor8: "wiring rotor8"
  by (rule wiringI) (simp_all add: rotor8_def str_def in_abc)

lemma wiring_rotor9: "wiring rotor9"
  by (rule wiringI) (simp_all add: rotor9_def str_def in_abc)

lemma wiring_rotor_list: "r \<in> set rotor_list \<Longrightarrow> wiring r"
  using wiring_rotor1 wiring_rotor2 wiring_rotor3 wiring_rotor4 wiring_rotor5 wiring_rotor6
    wiring_rotor7 wiring_rotor8 wiring_rotor9
  by (auto simp add: rotor_list_def)

subsection \<open>The table of upper-casing on Latin-1\<close>

lemma ascii_upper_latin1: "ascii_upper upper_latin1"
  by (simp add: ascii_upper_def upper_latin1_def)

lemma stable_upper_latin1: "stable_upper upper_latin1"
  unfolding stable_upper_def
proof (intro allI ballI)
  fix c d
  assume "d \<in> set (upper_latin1 c)"
  then have "d = 924 \<or> d = 376 \<or> d = 83 \<or> (65 \<le> d \<and> d \<le> 90)
      \<or> (192 \<le> d \<and> d \<le> 222) \<or> (d = c \<and> \<not> (97 \<le> c \<and> c \<le> 122) \<and> c \<noteq> 181
            \<and> c \<noteq> 223 \<and> \<not> (224 \<le> c \<and> c \<le> 254 \<and> c \<noteq> 247) \<and> c \<noteq> 255)"
    by (auto simp add: upper_latin1_def split: if_splits)
  then show "upper_latin1 d = [d]"
    by (auto simp add: upper_latin1_def)
qed

subsection \<open>The offsets as a counter\<close>

lemma Suc_mod26: "Suc n mod 26 = (if n mod 26 = 25 then 0 else Suc (n mod 26))"
proof -
  have "Suc n mod 26 = (if Suc (n mod 26) = 26 then 0 else Suc (n mod 26))"
    by (rule mod_Suc)
  moreover have "Suc (n mod 26) = 26 \<longleftrightarrow> n mod 26 = 25"
    by linarith
  ultimately show ?thesis by (simp only:)
qed

lemma Suc_div26: "Suc n div 26 = (if n mod 26 = 25 then Suc (n div 26) else n div 26)"
proof -
  have "Suc n div 26 = (if Suc n mod 26 = 0 then Suc (n div 26) else n div 26)"
    by (rule div_Suc)
  moreover have "Suc n mod 26 = 0 \<longleftrightarrow> n mod 26 = 25"
    unfolding Suc_mod26 by simp
  ultimately show ?thesis by (simp only:)
qed

lemma split26: "a < 26 \<Longrightarrow> (a + 26 * q) mod 26 = a \<and> (a + 26 * q) div 26 = (q::nat)"
  by simp

lemma split676:
  assumes "a < 26" "b < 26"
  shows "(a + 26 * b + 676 * c) mod 26 = (a::nat)" "(a + 26 * b + 676 * c) div 26 = b + 26 * c"
proof -
  have e: "a + 26 * b + 676 * c = a + 26 * (b + 26 * c)"
    by simp
  show "(a + 26 * b + 676 * c) mod 26 = a"
    unfolding e using split26 [OF assms(1)] by blast
  show "(a + 26 * b + 676 * c) div 26 = b + 26 * c"
    unfolding e using split26 [OF assms(1)] by blast
qed

lemma advance_step:
  assumes "in_range (p1, p2, p3)"
  shows "advance (p1, p2, p3) =
     (if p1 < 25 then (p1 + 1, p2, p3)
      else if p2 < 25 then (0, p2 + 1, p3)
      else if p3 < 25 then (0, 0, p3 + 1)
      else (0, 0, 0))"
  using assms by (auto simp add: advance_def in_range_def length_abc Let_def)

lemma advance_offsets_of: "advance (offsets_of n) = offsets_of (Suc n)"
proof -
  define a b c where "a = n mod 26" and "b = n div 26 mod 26" and "c = n div 26 div 26 mod 26"
  have lt: "a < 26" "b < 26" "c < 26"
    by (simp_all add: a_def b_def c_def)
  have n: "offsets_of n = (int a, int b, int c)"
    by (simp add: offsets_of_def a_def b_def c_def)
  have r: "in_range (int a, int b, int c)"
    using lt by (simp add: in_range_def)
  have lhs: "advance (offsets_of n) =
     (if a < 25 then (int a + 1, int b, int c)
      else if b < 25 then (0, int b + 1, int c)
      else if c < 25 then (0, 0, int c + 1)
      else (0, 0, 0))"
    unfolding n advance_step [OF r] by simp
  have rhs: "offsets_of (Suc n) =
     (if a \<noteq> 25 then (int (Suc a), int b, int c)
      else if b \<noteq> 25 then (0, int (Suc b), int c)
      else (0, 0, int (Suc c mod 26)))"
    by (simp add: offsets_of_def Suc_mod26 Suc_div26 a_def b_def c_def)
  have "Suc c mod 26 = (if c < 25 then Suc c else 0)"
  proof (cases "c < 25")
    case True
    then show ?thesis by simp
  next
    case False
    with lt(3) have "c = 25" by simp
    then show ?thesis by simp
  qed
  with lt show ?thesis
    unfolding lhs rhs by auto
qed

lemma funpow_advance: "(advance ^^ j) (offsets_of n) = offsets_of (n + j)"
  by (induction j) (simp_all add: advance_offsets_of)

lemma in_range_nat:
  assumes "in_range (p1, p2, p3)"
  shows "p1 = int (nat p1)" "p2 = int (nat p2)" "p3 = int (nat p3)"
    "nat p1 < 26" "nat p2 < 26" "nat p3 < 26"
  using assms by (auto simp add: in_range_def)

lemma offsets_of_digits:
  assumes "a < 26" "b < 26" "c < 26"
  shows "offsets_of (a + 26 * b + 676 * c) = (int a, int b, int c)"
proof -
  have "(b + 26 * c) mod 26 = b" "(b + 26 * c) div 26 = c"
    using split26 [OF assms(2), of c] by simp_all
  then show ?thesis
    using split676 [OF assms(1,2), of c] assms(3) by (simp add: offsets_of_def)
qed

lemma advance_676:
  assumes "in_range (p1, p2, p3)"
  shows "(advance ^^ (26 * 26)) (p1, p2, p3) = (p1, p2, (p3 + 1) mod 26)"
proof -
  define a b c where "a = nat p1" and "b = nat p2" and "c = nat p3"
  have p: "p1 = int a" "p2 = int b" "p3 = int c" and lt: "a < 26" "b < 26" "c < 26"
    using in_range_nat [OF assms] by (simp_all add: a_def b_def c_def)
  have c': "Suc c mod 26 < 26"
    by simp
  have "(advance ^^ (26 * 26)) (int a, int b, int c)
      = offsets_of (a + 26 * b + 676 * c + 26 * 26)"
    using funpow_advance [of "26 * 26" "a + 26 * b + 676 * c"] offsets_of_digits [OF lt]
    by (simp only:)
  also have "a + 26 * b + 676 * c + 26 * 26 = a + 26 * (b + 26 * Suc c)"
    by simp
  also have "offsets_of (a + 26 * (b + 26 * Suc c)) = (int a, int b, int (Suc c mod 26))"
    using split26 [OF lt(1), of "b + 26 * Suc c"] split26 [OF lt(2), of "Suc c"]
    by (simp add: offsets_of_def)
  also have "int (Suc c mod 26) = (int c + 1) mod 26"
    by (simp add: zmod_int add.commute)
  finally show ?thesis
    unfolding p .
qed

lemma advance_26:
  assumes "in_range (0, p2, p3)"
  shows "(advance ^^ 26) (0, p2, p3)
           = (0, (p2 + 1) mod 26, if p2 = 25 then (p3 + 1) mod 26 else p3)"
proof -
  define b c where "b = nat p2" and "c = nat p3"
  have p: "p2 = int b" "p3 = int c" and lt: "b < 26" "c < 26"
    using in_range_nat [OF assms] by (simp_all add: b_def c_def)
  have z: "(0::nat) < 26"
    by simp
  have "(advance ^^ 26) (int 0, int b, int c) = offsets_of (0 + 26 * b + 676 * c + 26)"
    using funpow_advance [of 26 "0 + 26 * b + 676 * c"] offsets_of_digits [OF z lt]
    by (simp only:)
  also have "0 + 26 * b + 676 * c + 26 = 0 + 26 * (Suc b + 26 * c)"
    by simp
  also have "offsets_of (0 + 26 * (Suc b + 26 * c))
      = (0, int ((Suc b + 26 * c) mod 26), int ((Suc b + 26 * c) div 26 mod 26))"
    using split26 [OF z, of "Suc b + 26 * c"] by (simp add: offsets_of_def)
  finally have run: "(advance ^^ 26) (0, int b, int c)
      = (0, int ((Suc b + 26 * c) mod 26), int ((Suc b + 26 * c) div 26 mod 26))"
    by simp
  have m: "int ((Suc b + 26 * c) mod 26) = (int b + 1) mod 26"
    by (simp add: zmod_int add.commute)
  show ?thesis
  proof (cases "b = 25")
    case True
    then have "Suc b + 26 * c = 0 + 26 * Suc c"
      by simp
    then have "(Suc b + 26 * c) div 26 = Suc c"
      using split26 [OF z, of "Suc c"] by simp
    then have "int ((Suc b + 26 * c) div 26 mod 26) = (int c + 1) mod 26"
      by (simp add: zmod_int add.commute)
    with True run m show ?thesis
      unfolding p by simp
  next
    case False
    with lt have "Suc b < 26"
      by simp
    then have "(Suc b + 26 * c) div 26 = c"
      using split26 [of "Suc b" c] by simp
    with lt have "int ((Suc b + 26 * c) div 26 mod 26) = int c"
      by simp
    with False run m show ?thesis
      unfolding p by simp
  qed
qed

subsection \<open>The loop without the other characters\<close>

lemma encipher_abc:
  assumes "wirings rotsel" "in_range rotpos" "involutive pb" "dom pb \<subseteq> set abc" "c \<in> set abc"
    and "encipher pb rotsel rotpos c = Inr d"
  shows "d \<in> set abc"
  using encipher_reciprocal [OF assms(1-5)] assms(6) by auto

lemma process_letters:
  assumes w: "wirings rotsel" and pb: "involutive pb" "dom pb \<subseteq> set abc"
  shows "in_range rotpos \<Longrightarrow> process pb rotsel s rotpos = Inr (result, rotpos')
     \<Longrightarrow> process pb rotsel (letters s) rotpos = Inr (letters result, rotpos')"
proof (induction s arbitrary: rotpos result)
  case Nil
  then show ?case by (simp add: letters_def)
next
  case (Cons symbol s)
  show ?case
  proof (cases "symbol \<in> set abc")
    case True
    from Cons.prems(2) True obtain d rest where
        d: "encipher pb rotsel rotpos symbol = Inr d"
        and rest: "process pb rotsel s (advance rotpos) = Inr (rest, rotpos')"
        and result: "result = d # rest"
      by (auto simp add: bind_def split: sum.splits)
    have dabc: "d \<in> set abc"
      using encipher_abc [OF w Cons.prems(1) pb True d] .
    have "process pb rotsel (letters s) (advance rotpos) = Inr (letters rest, rotpos')"
      using Cons.IH [OF in_range_advance [OF Cons.prems(1)] rest] .
    with True d dabc show ?thesis
      by (simp add: letters_def result bind_def)
  next
    case False
    from Cons.prems(2) False obtain rest where
        rest: "process pb rotsel s rotpos = Inr (rest, rotpos')"
        and result: "result = symbol # rest"
      by (auto simp add: bind_def split: sum.splits)
    have "process pb rotsel (letters s) rotpos = Inr (letters rest, rotpos')"
      using Cons.IH [OF Cons.prems(1) rest] .
    with False show ?thesis
      by (simp add: letters_def result)
  qed
qed

lemma upper_ascii:
  assumes "ascii_upper up" "\<forall>c \<in> set s. c < 128"
  shows "upper up s = map (\<lambda>c. if 97 \<le> c \<and> c \<le> 122 then c - 32 else c) s"
  using assms(2)
proof (induction s)
  case Nil
  then show ?case by (simp add: upper_def)
next
  case (Cons c s)
  then have "up c = [if 97 \<le> c \<and> c \<le> 122 then c - 32 else c]"
    using assms(1) by (simp add: ascii_upper_def)
  with Cons show ?case
    by (simp add: upper_def)
qed

lemma enigma_of_run:
  "enigma_run up msg rotpos rotsel plugb = Inr (result, offsets)
     \<Longrightarrow> enigma up msg rotpos rotsel plugb = Inr result"
  by (simp add: enigma_def bind_def)

lemma result_fixed:
  assumes up: "ascii_upper up" "stable_upper up" and sh: "same_shape (upper up msg) result"
  shows "upper up result = result"
proof (rule upper_fixed, rule ballI)
  fix d
  assume "d \<in> set result"
  then have "d \<in> set abc \<or> d \<in> set (upper up msg)"
    using same_shape_set [OF sh] by blast
  then show "up d = [d]"
    using upper_abc [OF up(1)] upper_stable [OF up(2), of msg] by blast
qed

lemma in_range_funpow: "in_range offsets \<Longrightarrow> in_range ((advance ^^ n) offsets)"
  by (induction n) (simp_all add: in_range_advance)

section \<open>The reflector is well formed\<close>

text \<open>
  C8. The reflector table is defined on exactly the 26 symbols of the alphabet, and for
  every symbol \<open>x\<close> of the alphabet \<open>reflector[x]\<close> differs from \<open>x\<close> and
  \<open>reflector[reflector[x]]\<close> is \<open>x\<close>.
\<close>

theorem reflector_well_formed:
  "dom reflector = set abc
     \<and> (\<forall>x \<in> set abc. \<exists>y. reflector x = Some y \<and> y \<noteq> x \<and> reflector y = Some x)"
proof (intro conjI ballI)
  show "dom reflector = set abc"
    by (rule reflector_dom)
next
  fix x
  assume x: "x \<in> set abc"
  define y where "y = (if x < 78 then x + 13 else x - 13)"
  have y: "y \<in> set abc" "y \<noteq> x" "(if y < 78 then y + 13 else y - 13) = x"
    using x by (auto simp add: y_def in_abc)
  have "reflector x = Some y"
    using reflector_rot13 [OF x] by (simp add: y_def)
  moreover have "reflector y = Some x"
    using reflector_rot13 [OF y(1)] y(3) by simp
  ultimately show "\<exists>y. reflector x = Some y \<and> y \<noteq> x \<and> reflector y = Some x"
    using y(2) by blast
qed

theorem reflector_well_formed_witness:
  "of_char CHR ''A'' \<in> set abc
     \<and> (\<exists>y. reflector (of_char CHR ''A'') = Some y \<and> y \<noteq> of_char CHR ''A''
            \<and> reflector y = Some (of_char CHR ''A''))"
proof -
  have "of_char CHR ''A'' \<in> set abc"
    by (simp add: in_abc)
  with reflector_well_formed show ?thesis by blast
qed

section \<open>What the plugboard builder accepts and builds\<close>

text \<open>
  C5. The specification has the plugboard builder remove the spaces before it checks the
  length, so that \<open>"AB CD"\<close> builds. The builder checks the length of the string as it
  is given and never removes a space: \<open>"AB CD"\<close>, well formed once its space is gone, is
  rejected for its odd length 5, and \<open>"AB  CD"\<close>, of even length, for the symbol
  \<open>' '\<close>.
\<close>

theorem plugboard_keeps_spaces:
  "plugboard (str ''AB CD'') = Inl (Invalid (OddPlugboardLength 5))
     \<and> well_formed_spec (filter (\<lambda>c. c \<noteq> of_char CHR '' '') (str ''AB CD''))
     \<and> plugboard (str ''AB  CD'') = Inl (Invalid (InvalidPlugboardSymbol (of_char CHR '' '')))"
  by (simp add: plugboard_def str_def well_formed_spec_def in_abc)

text \<open>
  C6. For a well-formed string (even length, distinct characters, all of the alphabet) the
  builder returns a dictionary in which \<open>p[a] = b\<close> implies \<open>p[b] = a\<close>; the two
  characters of every pair of the string are each other's entries; a symbol that is not in
  the string is left alone; plugging twice gives the symbol back; and the empty string
  gives the empty dictionary, which changes nothing.
\<close>

theorem plugboard_involution:
  assumes "well_formed_spec s"
  shows "\<exists>pb. plugboard s = Inr pb
           \<and> (\<forall>a b. pb a = Some b \<longrightarrow> pb b = Some a)
           \<and> (\<forall>j. 2 * j + 1 < length s \<longrightarrow>
                 pb (s ! (2 * j)) = Some (s ! (2 * j + 1))
                   \<and> pb (s ! (2 * j + 1)) = Some (s ! (2 * j)))
           \<and> (\<forall>c. c \<notin> set s \<longrightarrow> plug pb c = c)
           \<and> (\<forall>c. plug pb (plug pb c) = c)
           \<and> plugboard [] = Inr Map.empty \<and> (\<forall>c. plug Map.empty c = c)"
proof -
  obtain pb where pb: "plugboard s = Inr pb"
    using assms plugboard_ok_iff [of s] by blast
  have val: "pb = make_pairs s Map.empty"
    using pb by (rule plugboard_value)
  have inv: "involutive pb" and dom: "dom pb = set s"
    using plugboard_involutive [OF pb] by simp_all
  have "\<forall>a b. pb a = Some b \<longrightarrow> pb b = Some a"
    using inv unfolding involutive_def .
  moreover have "\<forall>j. 2 * j + 1 < length s \<longrightarrow>
      pb (s ! (2 * j)) = Some (s ! (2 * j + 1)) \<and> pb (s ! (2 * j + 1)) = Some (s ! (2 * j))"
    unfolding val using assms make_pairs_registered [of s _ Map.empty]
    by (simp add: well_formed_spec_def)
  moreover have "\<forall>c. c \<notin> set s \<longrightarrow> plug pb c = c"
  proof (intro allI impI)
    fix c
    assume "c \<notin> set s"
    then have "pb c = None"
      using dom by blast
    then show "plug pb c = c"
      by (simp add: plug_def)
  qed
  moreover have "\<forall>c. plug pb (plug pb c) = c"
    using plug_plug [OF inv] by simp
  moreover have "plugboard [] = Inr Map.empty"
    by (simp add: plugboard_def)
  moreover have "\<forall>c. plug Map.empty c = c"
    by (simp add: plug_def)
  ultimately show ?thesis
    using pb by blast
qed

theorem plugboard_involution_witness:
  "well_formed_spec (str ''AB'')
     \<and> (\<exists>pb. plugboard (str ''AB'') = Inr pb
           \<and> pb (of_char CHR ''A'') = Some (of_char CHR ''B'')
           \<and> pb (of_char CHR ''B'') = Some (of_char CHR ''A'')
           \<and> plug pb (of_char CHR ''C'') = of_char CHR ''C'')"
proof -
  have wf: "well_formed_spec (str ''AB'')"
    by (simp add: well_formed_spec_def str_def in_abc)
  obtain pb where pb: "plugboard (str ''AB'') = Inr pb"
      "\<forall>j. 2 * j + 1 < length (str ''AB'') \<longrightarrow>
                 pb (str ''AB'' ! (2 * j)) = Some (str ''AB'' ! (2 * j + 1))
                   \<and> pb (str ''AB'' ! (2 * j + 1)) = Some (str ''AB'' ! (2 * j))"
      "\<forall>c. c \<notin> set (str ''AB'') \<longrightarrow> plug pb c = c"
    using plugboard_involution [OF wf] by blast
  from pb(2) have "pb (str ''AB'' ! (2 * 0)) = Some (str ''AB'' ! (2 * 0 + 1))
                   \<and> pb (str ''AB'' ! (2 * 0 + 1)) = Some (str ''AB'' ! (2 * 0))"
    by (simp add: str_def)
  then have "pb (of_char CHR ''A'') = Some (of_char CHR ''B'')"
      "pb (of_char CHR ''B'') = Some (of_char CHR ''A'')"
    by (simp_all add: str_def)
  moreover have "plug pb (of_char CHR ''C'') = of_char CHR ''C''"
    using pb(3) by (simp add: str_def)
  ultimately show ?thesis
    using wf pb(1) by blast
qed

section \<open>What the validator raises\<close>

text \<open>
  C4, as stated, fails: with two equal rotors and the first position 0, outside
  \<open>[1, 26]\<close>, the validator reports the rotors, not the position.
\<close>

theorem validator_duplicate_first:
  "\<not> (1 \<le> (0::int) \<and> (0::int) \<le> 26)
     \<and> validator (0, 1, 1) (rotor1, rotor1, rotor2) [] = Inl (Invalid (DuplicateRotor 2))"
  by (simp add: validator_def rotors_distinct card_insert_if)

text \<open>
  C4, amended. The checks run in order. The validator fails with \<open>DuplicateRotor\<close> exactly
  when the selection has fewer than 3 distinct wirings. It fails with
  \<open>PositionOutOfRange\<close> exactly when the selection has 3 distinct wirings and some position
  is outside \<open>[1, 26]\<close>, and the error names the first such slot and its value. With 3
  distinct wirings and the three positions in range, it fails with the error of the
  plugboard builder if that fails, and otherwise returns the position and the selection
  unchanged together with the plugboard built.
\<close>

theorem validator_raises_iff:
  "((\<exists>n. validator (p1, p2, p3) (s1, s2, s3) pb = Inl (Invalid (DuplicateRotor n)))
       \<longleftrightarrow> card {s1, s2, s3} < 3)
   \<and> (validator (p1, p2, p3) (s1, s2, s3) pb = Inl (Invalid (PositionOutOfRange First p))
       \<longleftrightarrow> card {s1, s2, s3} = 3 \<and> p = p1 \<and> \<not> (1 \<le> p1 \<and> p1 \<le> 26))
   \<and> (validator (p1, p2, p3) (s1, s2, s3) pb = Inl (Invalid (PositionOutOfRange Second p))
       \<longleftrightarrow> card {s1, s2, s3} = 3 \<and> (1 \<le> p1 \<and> p1 \<le> 26)
             \<and> p = p2 \<and> \<not> (1 \<le> p2 \<and> p2 \<le> 26))
   \<and> (validator (p1, p2, p3) (s1, s2, s3) pb = Inl (Invalid (PositionOutOfRange Third p))
       \<longleftrightarrow> card {s1, s2, s3} = 3 \<and> (1 \<le> p1 \<and> p1 \<le> 26) \<and> (1 \<le> p2 \<and> p2 \<le> 26)
             \<and> p = p3 \<and> \<not> (1 \<le> p3 \<and> p3 \<le> 26))
   \<and> (card {s1, s2, s3} = 3 \<and> (1 \<le> p1 \<and> p1 \<le> 26) \<and> (1 \<le> p2 \<and> p2 \<le> 26)
         \<and> (1 \<le> p3 \<and> p3 \<le> 26)
       \<longrightarrow> validator (p1, p2, p3) (s1, s2, s3) pb
             = (case plugboard pb of
                  Inl e \<Rightarrow> Inl e
                | Inr pbdict \<Rightarrow> Inr ((p1, p2, p3), (s1, s2, s3), pbdict)))"
proof -
  have le3: "card {s1, s2, s3} \<le> 3"
    by (simp add: card_insert_if)
  have pbe: "\<And>e. plugboard pb = Inl e \<Longrightarrow>
      (\<forall>n. e \<noteq> Invalid (DuplicateRotor n)) \<and> (\<forall>sl q. e \<noteq> Invalid (PositionOutOfRange sl q))"
    using plugboard_error [of pb] by auto
  show ?thesis
  proof (cases "card {s1, s2, s3} < 3")
    case True
    then show ?thesis
      by (simp add: validator_def Let_def)
  next
    case False
    with le3 have c3: "card {s1, s2, s3} = 3" by simp
    show ?thesis
    proof (cases "plugboard pb")
      case (Inl e)
      with pbe [OF Inl] c3 show ?thesis
        by (auto simp add: validator_def Let_def length_abc)
    next
      case (Inr pbdict)
      with c3 show ?thesis
        by (auto simp add: validator_def Let_def length_abc)
    qed
  qed
qed

theorem validator_raises_iff_witness:
  "card {rotor1, rotor2, rotor3} = 3 \<and> (1 \<le> (1::int) \<and> (1::int) \<le> 26)
     \<and> \<not> (1 \<le> (27::int) \<and> (27::int) \<le> 26)
     \<and> validator (1, 1, 27) (rotor1, rotor2, rotor3) [] = Inl (Invalid (PositionOutOfRange Third 27))
     \<and> validator (1, 1, 1) (rotor1, rotor2, rotor3) []
          = Inr ((1, 1, 1), (rotor1, rotor2, rotor3), Map.empty)"
proof -
  have c: "card {rotor1, rotor2, rotor3} = 3"
    by (simp add: rotors_distinct card_insert_if)
  have pb: "plugboard [] = Inr Map.empty"
    by (simp add: plugboard_def)
  show ?thesis
    using validator_raises_iff [of 1 1 27 rotor1 rotor2 rotor3 "[]" 27]
      validator_raises_iff [of 1 1 1 rotor1 rotor2 rotor3 "[]" 0] c pb
    by simp
qed

section \<open>Errors of the validation\<close>

text \<open>
  C7. An error of the validator is one of the validation errors and is what \<open>enigma\<close>
  raises, whatever the text: no character is processed. Two validation errors of different
  causes (duplicate rotor, position of the first, second or third slot, odd plugboard
  length, invalid plugboard symbol, duplicate plugboard symbol) are different exception
  values: their class and message differ. The malformed plugboards \<open>"ABC"\<close>, \<open>"AA"\<close>
  and \<open>"A1"\<close> fail with the three plugboard errors.
\<close>

theorem validation_errors_distinguishable:
  "(validator rotpos rotsel (upper up plugb) = Inl e
      \<longrightarrow> (\<exists>v. e = Invalid v) \<and> enigma up msg rotpos rotsel plugb = Inl e)
   \<and> (cause_of v \<noteq> cause_of v' \<longrightarrow> raised v \<noteq> raised v')
   \<and> plugboard (str ''ABC'') = Inl (Invalid (OddPlugboardLength 3))
   \<and> plugboard (str ''AA'') = Inl (Invalid (DuplicatePlugboardSymbol (of_char CHR ''A'')))
   \<and> plugboard (str ''A1'') = Inl (Invalid (InvalidPlugboardSymbol (of_char CHR ''1'')))"
proof (intro conjI impI)
  assume "validator rotpos rotsel (upper up plugb) = Inl e"
  then show "\<exists>v. e = Invalid v" by (rule validator_error)
next
  assume "validator rotpos rotsel (upper up plugb) = Inl e"
  then show "enigma up msg rotpos rotsel plugb = Inl e" by (rule enigma_validator_error)
next
  assume "cause_of v \<noteq> cause_of v'"
  then show "raised v \<noteq> raised v'" using raised_cause by blast
next
  show "plugboard (str ''ABC'') = Inl (Invalid (OddPlugboardLength 3))"
    by (simp add: plugboard_def str_def)
next
  show "plugboard (str ''AA'') = Inl (Invalid (DuplicatePlugboardSymbol (of_char CHR ''A'')))"
    by (simp add: plugboard_def str_def in_abc)
next
  show "plugboard (str ''A1'') = Inl (Invalid (InvalidPlugboardSymbol (of_char CHR ''1'')))"
    by (simp add: plugboard_def str_def in_abc)
qed

theorem validation_errors_distinguishable_witness:
  "validator (1, 1, 27) (rotor1, rotor2, rotor3) (upper upper_latin1 (str ''ab''))
      = Inl (Invalid (PositionOutOfRange Third 27))
   \<and> enigma upper_latin1 (str ''HELLO'') (1, 1, 27) (rotor1, rotor2, rotor3) (str ''ab'')
      = Inl (Invalid (PositionOutOfRange Third 27))
   \<and> cause_of (PositionOutOfRange Third 27) \<noteq> cause_of (OddPlugboardLength 3)
   \<and> raised (PositionOutOfRange Third 27) \<noteq> raised (OddPlugboardLength 3)"
proof -
  have v: "validator (1, 1, 27) (rotor1, rotor2, rotor3) (upper upper_latin1 (str ''ab''))
      = Inl (Invalid (PositionOutOfRange Third 27))"
    by (simp add: validator_def rotor1_def rotor2_def rotor3_def str_def card_insert_if
        length_abc)
  have c: "cause_of (PositionOutOfRange Third 27) \<noteq> cause_of (OddPlugboardLength 3)"
    by simp
  show ?thesis
    using validation_errors_distinguishable [of "(1, 1, 27)" "(rotor1, rotor2, rotor3)"
        upper_latin1 "str ''ab''" "Invalid (PositionOutOfRange Third 27)" "str ''HELLO''"
        "PositionOutOfRange Third 27" "OddPlugboardLength 3"] v c
    by blast
qed

section \<open>What the cipher returns\<close>

text \<open>
  C1. Reciprocity. For positions in \<open>[1, 26]\<close>, three pairwise distinct rotors of the
  catalogue and a plugboard string that is well formed once upper-cased, \<open>enigma\<close>
  returns a string, and \<open>enigma\<close> of that string with the same configuration returns
  \<open>text.upper()\<close>. The two facts used of \<open>str.upper()\<close> are its behaviour on ASCII and
  that it leaves its own output unchanged.
\<close>

theorem enigma_reciprocity:
  assumes up: "ascii_upper up" "stable_upper up"
    and pos: "1 \<le> p1 \<and> p1 \<le> 26" "1 \<le> p2 \<and> p2 \<le> 26" "1 \<le> p3 \<and> p3 \<le> 26"
    and sel: "ra \<in> set rotor_list" "rb \<in> set rotor_list" "rc \<in> set rotor_list"
      "ra \<noteq> rb" "ra \<noteq> rc" "rb \<noteq> rc"
    and pb: "well_formed_spec (upper up plugb)"
  shows "\<exists>cipher. enigma up msg (p1, p2, p3) (ra, rb, rc) plugb = Inr cipher
           \<and> enigma up cipher (p1, p2, p3) (ra, rb, rc) plugb = Inr (upper up msg)"
proof -
  have "card {ra, rb, rc} = 3"
    using sel(4-6) by simp
  then obtain cfg where v: "validator (p1, p2, p3) (ra, rb, rc) (upper up plugb) = Inr cfg"
    using validator_ok_iff [of p1 p2 p3 ra rb rc "upper up plugb"] pos pb by blast
  have w: "wirings (ra, rb, rc)"
    using sel(1-3) by (simp add: wirings_def wiring_rotor_list)
  obtain cipher pbdict where cfg: "cfg = ((p1, p2, p3), (ra, rb, rc), pbdict)"
      and run: "enigma_run up msg (p1, p2, p3) (ra, rb, rc) plugb
        = Inr (cipher, (advance ^^ length (letters (upper up msg))) (start_offsets (p1, p2, p3)))"
      and sh: "same_shape (upper up msg) cipher"
      and rev_run: "process pbdict (ra, rb, rc) cipher (start_offsets (p1, p2, p3))
        = Inr (upper up msg, (advance ^^ length (letters (upper up msg))) (start_offsets (p1, p2, p3)))"
    using enigma_run_total [OF v w, of msg] by blast
  have "enigma_run up cipher (p1, p2, p3) (ra, rb, rc) plugb
      = process pbdict (ra, rb, rc) (upper up cipher) (start_offsets (p1, p2, p3))"
    using v unfolding cfg by (rule enigma_run_process)
  also have "upper up cipher = cipher"
    using up sh by (rule result_fixed)
  finally have "enigma up cipher (p1, p2, p3) (ra, rb, rc) plugb = Inr (upper up msg)"
    using rev_run enigma_of_run by simp
  with enigma_of_run [OF run] show ?thesis by blast
qed

theorem enigma_reciprocity_witness:
  "ascii_upper upper_latin1 \<and> stable_upper upper_latin1
     \<and> rotor1 \<in> set rotor_list \<and> rotor5 \<in> set rotor_list \<and> rotor3 \<in> set rotor_list
     \<and> rotor1 \<noteq> rotor5 \<and> rotor1 \<noteq> rotor3 \<and> rotor5 \<noteq> rotor3
     \<and> well_formed_spec (upper upper_latin1 (str ''pictures''))
     \<and> (\<exists>cipher. enigma upper_latin1 (str ''Hello, World!'') (1, 2, 26) (rotor1, rotor5, rotor3)
                     (str ''pictures'') = Inr cipher
           \<and> enigma upper_latin1 cipher (1, 2, 26) (rotor1, rotor5, rotor3) (str ''pictures'')
                = Inr (upper upper_latin1 (str ''Hello, World!'')))"
proof -
  have sel: "rotor1 \<in> set rotor_list" "rotor5 \<in> set rotor_list" "rotor3 \<in> set rotor_list"
    by (simp_all add: rotor_list_def)
  have ne: "rotor1 \<noteq> rotor5" "rotor1 \<noteq> rotor3" "rotor5 \<noteq> rotor3"
    by (simp_all add: rotor1_def rotor3_def rotor5_def str_def)
  have wf: "well_formed_spec (upper upper_latin1 (str ''pictures''))"
    by (simp add: well_formed_spec_def upper_def upper_latin1_def str_def in_abc)
  have pos: "1 \<le> (1::int) \<and> (1::int) \<le> 26" "1 \<le> (2::int) \<and> (2::int) \<le> 26"
      "1 \<le> (26::int) \<and> (26::int) \<le> 26"
    by simp_all
  show ?thesis
    using enigma_reciprocity [OF ascii_upper_latin1 stable_upper_latin1 pos sel ne wf,
        of "str ''Hello, World!''"]
      ascii_upper_latin1 stable_upper_latin1 sel ne wf
    by blast
qed

text \<open>
  C2, as stated, fails on characters outside ASCII, because the whole text goes through
  \<open>str.upper()\<close> first: the one character \<open>U+00DF\<close> becomes \<open>'SS'\<close> and two symbols
  are enciphered, and \<open>U+00E9\<close>, which is not of the alphabet, comes out as \<open>U+00C9\<close>.
\<close>

theorem enigma_upper_changes_text:
  "enigma upper_latin1 [223] (1, 1, 1) (rotor1, rotor2, rotor3) [] = Inr (str ''DI'')
     \<and> length (str ''DI'') \<noteq> length [223::nat]
     \<and> 233 \<notin> set abc
     \<and> enigma upper_latin1 [233] (1, 1, 1) (rotor1, rotor2, rotor3) [] = Inr [201]"
  by code_simp

text \<open>
  C2, amended. For a configuration that the validator accepts and whose rotors are
  wirings, \<open>enigma\<close> returns a string of the length of \<open>text.upper()\<close>; where
  \<open>text.upper()\<close> has a character that is not of the alphabet the result has the same
  character, and where it has a symbol of the alphabet the result has a symbol of the
  alphabet. Removing the characters that are not of the alphabet changes neither the
  enciphered symbols nor the offsets at the end: such characters do not move the rotors.
  For a text of ASCII characters all this holds of the text itself: the result has its
  length, a symbol of the alphabet at every letter, and the same character elsewhere.
\<close>

theorem enigma_preserves_shape:
  assumes v: "validator rotpos rotsel (upper up plugb) = Inr (rotpos, rotsel, pbdict)"
    and w: "wirings rotsel"
  shows "\<exists>result offsets.
      enigma_run up msg rotpos rotsel plugb = Inr (result, offsets)
      \<and> enigma up msg rotpos rotsel plugb = Inr result
      \<and> length result = length (upper up msg)
      \<and> (\<forall>i < length result.
            if upper up msg ! i \<in> set abc then result ! i \<in> set abc
            else result ! i = upper up msg ! i)
      \<and> process pbdict rotsel (letters (upper up msg)) (start_offsets rotpos)
           = Inr (letters result, offsets)
      \<and> (ascii_upper up \<and> (\<forall>c \<in> set msg. c < 128) \<longrightarrow>
            length result = length msg
            \<and> (\<forall>i < length msg.
                  if (65 \<le> msg ! i \<and> msg ! i \<le> 90) \<or> (97 \<le> msg ! i \<and> msg ! i \<le> 122)
                  then result ! i \<in> set abc else result ! i = msg ! i))"
proof -
  let ?offsets = "(advance ^^ length (letters (upper up msg))) (start_offsets rotpos)"
  obtain result where run: "enigma_run up msg rotpos rotsel plugb = Inr (result, ?offsets)"
      and sh: "same_shape (upper up msg) result"
    using enigma_run_total [OF v w, of msg] by blast
  obtain pb' where pb: "plugboard (upper up plugb) = Inr pb'"
      and cfg: "(rotpos, rotsel, pbdict) = (rotpos, rotsel, pb')"
      and r: "in_range (start_offsets rotpos)"
    using validator_ok [OF v] by blast
  have inv: "involutive pbdict" "dom pbdict \<subseteq> set abc"
    using plugboard_involutive [of "upper up plugb" pbdict] pb cfg by blast+
  have len: "length result = length (upper up msg)"
    using sh by (simp add: same_shape_def)
  have pt: "\<forall>i < length result.
      if upper up msg ! i \<in> set abc then result ! i \<in> set abc
      else result ! i = upper up msg ! i"
    using sh by (simp add: same_shape_def)
  have "process pbdict rotsel (upper up msg) (start_offsets rotpos) = Inr (result, ?offsets)"
    using run enigma_run_process [OF v, of msg] by simp
  then have lt: "process pbdict rotsel (letters (upper up msg)) (start_offsets rotpos)
      = Inr (letters result, ?offsets)"
    using process_letters [OF w inv r] by blast
  have ascii: "length result = length msg
      \<and> (\<forall>i < length msg.
            if (65 \<le> msg ! i \<and> msg ! i \<le> 90) \<or> (97 \<le> msg ! i \<and> msg ! i \<le> 122)
            then result ! i \<in> set abc else result ! i = msg ! i)"
    if a: "ascii_upper up" "\<forall>c \<in> set msg. c < 128"
  proof -
    have u: "upper up msg = map (\<lambda>c. if 97 \<le> c \<and> c \<le> 122 then c - 32 else c) msg"
      using a by (rule upper_ascii)
    have l: "length result = length msg"
      using len u by simp
    have "if (65 \<le> msg ! i \<and> msg ! i \<le> 90) \<or> (97 \<le> msg ! i \<and> msg ! i \<le> 122)
          then result ! i \<in> set abc else result ! i = msg ! i" if i: "i < length msg" for i
    proof -
      have ui: "upper up msg ! i = (if 97 \<le> msg ! i \<and> msg ! i \<le> 122 then msg ! i - 32 else msg ! i)"
        using i u by simp
      have "if upper up msg ! i \<in> set abc then result ! i \<in> set abc
            else result ! i = upper up msg ! i"
        using pt i l by simp
      then show ?thesis
        unfolding ui in_abc by (auto split: if_splits)
    qed
    with l show ?thesis by blast
  qed
  show ?thesis
    using run enigma_of_run [OF run] len pt lt ascii by blast
qed

theorem enigma_preserves_shape_witness:
  "validator (1, 1, 1) (rotor1, rotor2, rotor3) (upper upper_latin1 [])
      = Inr ((1, 1, 1), (rotor1, rotor2, rotor3), Map.empty)
   \<and> wirings (rotor1, rotor2, rotor3)
   \<and> ascii_upper upper_latin1 \<and> list_all (\<lambda>c. c < 128) (str ''Hi 1'')
   \<and> (\<exists>result. enigma upper_latin1 (str ''Hi 1'') (1, 1, 1) (rotor1, rotor2, rotor3) []
                  = Inr result
         \<and> length result = 4 \<and> result ! 0 \<in> set abc \<and> result ! 1 \<in> set abc
         \<and> result ! 2 = of_char CHR '' '' \<and> result ! 3 = of_char CHR ''1'')"
proof -
  have v: "validator (1, 1, 1) (rotor1, rotor2, rotor3) (upper upper_latin1 [])
      = Inr ((1, 1, 1), (rotor1, rotor2, rotor3), Map.empty)"
    by (simp add: validator_def upper_def plugboard_def length_abc rotors_distinct)
  have w: "wirings (rotor1, rotor2, rotor3)"
    by (simp add: wirings_def wiring_rotor1 wiring_rotor2 wiring_rotor3)
  have a: "\<forall>c \<in> set (str ''Hi 1''). c < 128"
    by (simp add: str_def)
  obtain result where res:
      "enigma upper_latin1 (str ''Hi 1'') (1, 1, 1) (rotor1, rotor2, rotor3) [] = Inr result"
      "ascii_upper upper_latin1 \<and> (\<forall>c \<in> set (str ''Hi 1''). c < 128) \<longrightarrow>
            length result = length (str ''Hi 1'')
            \<and> (\<forall>i < length (str ''Hi 1'').
                  if (65 \<le> str ''Hi 1'' ! i \<and> str ''Hi 1'' ! i \<le> 90)
                     \<or> (97 \<le> str ''Hi 1'' ! i \<and> str ''Hi 1'' ! i \<le> 122)
                  then result ! i \<in> set abc else result ! i = str ''Hi 1'' ! i)"
    using enigma_preserves_shape [OF v w, of "str ''Hi 1''"] by blast
  from res(2) ascii_upper_latin1 a have l: "length result = length (str ''Hi 1'')"
    and p: "\<forall>i < length (str ''Hi 1'').
                  if (65 \<le> str ''Hi 1'' ! i \<and> str ''Hi 1'' ! i \<le> 90)
                     \<or> (97 \<le> str ''Hi 1'' ! i \<and> str ''Hi 1'' ! i \<le> 122)
                  then result ! i \<in> set abc else result ! i = str ''Hi 1'' ! i"
    by blast+
  have "length result = 4"
    using l by (simp add: str_def)
  moreover have "result ! 0 \<in> set abc" "result ! 1 \<in> set abc"
      "result ! 2 = of_char CHR '' ''" "result ! 3 = of_char CHR ''1''"
    using p [rule_format, of 0] p [rule_format, of 1] p [rule_format, of 2]
      p [rule_format, of 3]
    by (simp_all add: str_def)
  moreover have "list_all (\<lambda>c. c < 128) (str ''Hi 1'')"
    by (simp add: str_def)
  ultimately show ?thesis
    using v w ascii_upper_latin1 res(1) by blast
qed

text \<open>
  C3, as stated, fails: the validator compares the three rotor strings with each other and
  never looks inside them. The selection \<open>("A", "B", "C")\<close> passes, and the first symbol
  \<open>'B'\<close> indexes the one-character rotor \<open>"A"\<close> at 1.
\<close>

theorem enigma_fails_after_validation:
  "validator (1, 1, 1) (str ''A'', str ''B'', str ''C'') (upper upper_latin1 [])
      = Inr ((1, 1, 1), (str ''A'', str ''B'', str ''C''), Map.empty)
     \<and> enigma upper_latin1 (str ''B'') (1, 1, 1) (str ''A'', str ''B'', str ''C'') []
      = Inl IndexError"
proof
  show v: "validator (1, 1, 1) (str ''A'', str ''B'', str ''C'') (upper upper_latin1 [])
      = Inr ((1, 1, 1), (str ''A'', str ''B'', str ''C''), Map.empty)"
    by (simp add: validator_def upper_def str_def plugboard_def length_abc)
  show "enigma upper_latin1 (str ''B'') (1, 1, 1) (str ''A'', str ''B'', str ''C'') []
      = Inl IndexError"
    by code_simp
qed

text \<open>
  C3, amended. For a configuration that the validator accepts and whose three rotors are
  wirings (each symbol of the alphabet exactly once, as every rotor of the catalogue),
  \<open>enigma\<close> returns a string with one symbol for each character of \<open>text.upper()\<close>;
  every offset triple the loop reaches is an index triple of the alphabet, and at every
  such triple every look-up of the per-symbol transform succeeds for every symbol of the
  alphabet.
\<close>

theorem enigma_total:
  assumes v: "validator rotpos rotsel (upper up plugb) = Inr (rotpos, rotsel, pbdict)"
    and w: "wirings rotsel"
  shows "(\<exists>result. enigma up msg rotpos rotsel plugb = Inr result
            \<and> length result = length (upper up msg))
      \<and> (\<forall>n. in_range ((advance ^^ n) (start_offsets rotpos)))
      \<and> (\<forall>offsets symbol. in_range offsets \<and> symbol \<in> set abc
            \<longrightarrow> (\<exists>d. encipher pbdict rotsel offsets symbol = Inr d \<and> d \<in> set abc))"
proof -
  obtain result offsets where run: "enigma_run up msg rotpos rotsel plugb = Inr (result, offsets)"
      and sh: "same_shape (upper up msg) result"
    using enigma_run_total [OF v w, of msg] by blast
  obtain pb' where pb: "plugboard (upper up plugb) = Inr pb'"
      and cfg: "(rotpos, rotsel, pbdict) = (rotpos, rotsel, pb')"
      and r: "in_range (start_offsets rotpos)"
    using validator_ok [OF v] by blast
  have inv: "involutive pbdict" "dom pbdict \<subseteq> set abc"
    using plugboard_involutive [of "upper up plugb" pbdict] pb cfg by blast+
  have "enigma up msg rotpos rotsel plugb = Inr result \<and> length result = length (upper up msg)"
    using enigma_of_run [OF run] sh by (simp add: same_shape_def)
  moreover have "\<forall>n. in_range ((advance ^^ n) (start_offsets rotpos))"
    using in_range_funpow [OF r] by blast
  moreover have "\<forall>offsets symbol. in_range offsets \<and> symbol \<in> set abc
      \<longrightarrow> (\<exists>d. encipher pbdict rotsel offsets symbol = Inr d \<and> d \<in> set abc)"
    using encipher_reciprocal [OF w _ inv] by blast
  ultimately show ?thesis by blast
qed

theorem enigma_total_witness:
  "validator (26, 26, 26) (rotor7, rotor8, rotor9) (upper upper_latin1 (str ''ab''))
      = Inr ((26, 26, 26), (rotor7, rotor8, rotor9),
             [of_char CHR ''A'' \<mapsto> of_char CHR ''B'', of_char CHR ''B'' \<mapsto> of_char CHR ''A''])
   \<and> wirings (rotor7, rotor8, rotor9)
   \<and> (\<exists>result. enigma upper_latin1 (str ''attack at dawn'') (26, 26, 26)
                    (rotor7, rotor8, rotor9) (str ''ab'') = Inr result
         \<and> length result = 14)"
proof -
  have ne: "rotor7 \<noteq> rotor8" "rotor7 \<noteq> rotor9" "rotor8 \<noteq> rotor9"
    by (simp_all add: rotor7_def rotor8_def rotor9_def str_def)
  have v: "validator (26, 26, 26) (rotor7, rotor8, rotor9) (upper upper_latin1 (str ''ab''))
      = Inr ((26, 26, 26), (rotor7, rotor8, rotor9),
             [of_char CHR ''A'' \<mapsto> of_char CHR ''B'', of_char CHR ''B'' \<mapsto> of_char CHR ''A''])"
    by (simp add: validator_def upper_def upper_latin1_def str_def plugboard_def length_abc
        in_abc ne)
  have w: "wirings (rotor7, rotor8, rotor9)"
    by (simp add: wirings_def wiring_rotor7 wiring_rotor8 wiring_rotor9)
  have l: "length (upper upper_latin1 (str ''attack at dawn'')) = 14"
    by (simp add: upper_def upper_latin1_def str_def)
  show ?thesis
    using enigma_total [OF v w, of "str ''attack at dawn''"] v w l by auto
qed

text \<open>
  C10. \<open>enigma\<close> upper-cases the plugboard string before validating it, so the string and
  its upper-cased form give the same result (\<open>str.upper()\<close> leaves its own output
  unchanged). \<open>"pictures"\<close>, which the plugboard builder rejects for its first symbol
  \<open>'p'\<close>, is accepted by \<open>enigma\<close> with any valid position and selection.
\<close>

theorem plugboard_spec_upper_cased:
  assumes "stable_upper up"
  shows "enigma up msg rotpos rotsel plugb = enigma up msg rotpos rotsel (upper up plugb)
     \<and> plugboard (str ''pictures'')
          = Inl (Invalid (InvalidPlugboardSymbol (of_char CHR ''p'')))
     \<and> (ascii_upper up \<and> wirings rotsel \<and> (\<exists>cfg. validator rotpos rotsel [] = Inr cfg)
          \<longrightarrow> (\<exists>result. enigma up msg rotpos rotsel (str ''pictures'') = Inr result))"
proof (intro conjI impI)
  show "enigma up msg rotpos rotsel plugb = enigma up msg rotpos rotsel (upper up plugb)"
    using upper_idem [OF assms, of plugb] by (simp add: enigma_def enigma_run_def)
next
  show "plugboard (str ''pictures'') = Inl (Invalid (InvalidPlugboardSymbol (of_char CHR ''p'')))"
    by (simp add: plugboard_def str_def in_abc)
next
  assume a: "ascii_upper up \<and> wirings rotsel \<and> (\<exists>cfg. validator rotpos rotsel [] = Inr cfg)"
  obtain p1 p2 p3 where rotpos: "rotpos = (p1, p2, p3)"
    by (cases rotpos)
  obtain s1 s2 s3 where rotsel: "rotsel = (s1, s2, s3)"
    by (cases rotsel)
  have "\<forall>c \<in> set (str ''pictures''). c < 128"
    by (simp add: str_def)
  then have u: "upper up (str ''pictures'') = str ''PICTURES''"
    using a upper_ascii [of up "str ''pictures''"] by (simp add: str_def)
  have wf: "well_formed_spec (upper up (str ''pictures''))"
    unfolding u by (simp add: well_formed_spec_def str_def in_abc)
  have "\<exists>cfg. validator rotpos rotsel (upper up (str ''pictures'')) = Inr cfg"
    using a wf unfolding rotpos rotsel validator_ok_iff by blast
  then obtain cfg where v: "validator rotpos rotsel (upper up (str ''pictures'')) = Inr cfg"
    by blast
  from a have w: "wirings rotsel" by blast
  show "\<exists>result. enigma up msg rotpos rotsel (str ''pictures'') = Inr result"
    using enigma_run_total [OF v w, of msg] enigma_of_run by blast
qed

theorem plugboard_spec_upper_cased_witness:
  "stable_upper upper_latin1 \<and> ascii_upper upper_latin1 \<and> wirings (rotor1, rotor2, rotor3)
   \<and> validator (1, 2, 1) (rotor1, rotor2, rotor3) []
        = Inr ((1, 2, 1), (rotor1, rotor2, rotor3), Map.empty)
   \<and> enigma upper_latin1 (str ''Hello World!'') (1, 2, 1) (rotor1, rotor2, rotor3) (str ''pictures'')
        = enigma upper_latin1 (str ''Hello World!'') (1, 2, 1) (rotor1, rotor2, rotor3)
            (upper upper_latin1 (str ''pictures''))
   \<and> (\<exists>result. enigma upper_latin1 (str ''Hello World!'') (1, 2, 1) (rotor1, rotor2, rotor3)
                    (str ''pictures'') = Inr result)"
proof -
  have v: "validator (1, 2, 1) (rotor1, rotor2, rotor3) []
      = Inr ((1, 2, 1), (rotor1, rotor2, rotor3), Map.empty)"
    by (simp add: validator_def plugboard_def length_abc rotors_distinct)
  have w: "wirings (rotor1, rotor2, rotor3)"
    by (simp add: wirings_def wiring_rotor1 wiring_rotor2 wiring_rotor3)
  show ?thesis
    using plugboard_spec_upper_cased [OF stable_upper_latin1, of "str ''Hello World!''"
        "(1, 2, 1)" "(rotor1, rotor2, rotor3)" "str ''pictures''"]
      stable_upper_latin1 ascii_upper_latin1 v w
    by blast
qed

section \<open>How the rotors step\<close>

text \<open>
  C9. The offsets at the end of the loop are the start offsets advanced once for each
  symbol of the alphabet in \<open>text.upper()\<close>; a symbol is enciphered with the offsets as
  they are and the rest of the text with the advanced ones. Advancing increments the first
  offset, carries into the second and the third past 25, and lets the third roll over to 0.
  From \<open>(0, k, m)\<close>, 26 steps give first offset 0 and second \<open>(k + 1) mod 26\<close> (the third
  moves only if the second wrapped); \<open>26 * 26\<close> steps from any offsets leave the first two
  as they were and add 1 to the third, modulo 26.
\<close>

theorem odometer_stepping:
  assumes v: "validator rotpos rotsel (upper up plugb) = Inr (rotpos, rotsel, pbdict)"
    and w: "wirings rotsel"
  shows "(\<exists>result. enigma_run up msg rotpos rotsel plugb
            = Inr (result, (advance ^^ length (letters (upper up msg))) (start_offsets rotpos)))
      \<and> (symbol \<in> set abc \<longrightarrow>
            process pbdict rotsel (symbol # rest) offsets
              = bind (encipher pbdict rotsel offsets symbol) (\<lambda>d.
                bind (process pbdict rotsel rest (advance offsets)) (\<lambda>(result, offsets').
                Inr (d # result, offsets'))))
      \<and> (in_range (o1, o2, o3) \<longrightarrow>
            advance (o1, o2, o3) =
              (if o1 < 25 then (o1 + 1, o2, o3)
               else if o2 < 25 then (0, o2 + 1, o3)
               else if o3 < 25 then (0, 0, o3 + 1)
               else (0, 0, 0)))
      \<and> (in_range (0, k, m) \<longrightarrow>
            (advance ^^ 26) (0, k, m)
              = (0, (k + 1) mod 26, if k = 25 then (m + 1) mod 26 else m))
      \<and> (in_range (o1, o2, o3) \<longrightarrow>
            (advance ^^ (26 * 26)) (o1, o2, o3) = (o1, o2, (o3 + 1) mod 26))"
proof (intro conjI impI)
  show "\<exists>result. enigma_run up msg rotpos rotsel plugb
      = Inr (result, (advance ^^ length (letters (upper up msg))) (start_offsets rotpos))"
    using enigma_run_total [OF v w, of msg] by blast
next
  assume "symbol \<in> set abc"
  then show "process pbdict rotsel (symbol # rest) offsets
      = bind (encipher pbdict rotsel offsets symbol) (\<lambda>d.
        bind (process pbdict rotsel rest (advance offsets)) (\<lambda>(result, offsets').
        Inr (d # result, offsets')))"
    by simp
next
  assume "in_range (o1, o2, o3)"
  then show "advance (o1, o2, o3) =
      (if o1 < 25 then (o1 + 1, o2, o3)
       else if o2 < 25 then (0, o2 + 1, o3)
       else if o3 < 25 then (0, 0, o3 + 1)
       else (0, 0, 0))"
    by (rule advance_step)
next
  assume "in_range (0, k, m)"
  then show "(advance ^^ 26) (0, k, m)
      = (0, (k + 1) mod 26, if k = 25 then (m + 1) mod 26 else m)"
    by (rule advance_26)
next
  assume "in_range (o1, o2, o3)"
  then show "(advance ^^ (26 * 26)) (o1, o2, o3) = (o1, o2, (o3 + 1) mod 26)"
    by (rule advance_676)
qed

theorem odometer_stepping_witness:
  "validator (1, 26, 3) (rotor1, rotor2, rotor3) (upper upper_latin1 [])
      = Inr ((1, 26, 3), (rotor1, rotor2, rotor3), Map.empty)
   \<and> wirings (rotor1, rotor2, rotor3)
   \<and> in_range (0, 25, 2)
   \<and> length (letters (upper upper_latin1 (str ''The quick brown fox jumps over 1 A!''))) = 26
   \<and> (\<exists>result. enigma_run upper_latin1 (str ''The quick brown fox jumps over 1 A!'') (1, 26, 3)
                    (rotor1, rotor2, rotor3) []
                  = Inr (result, (0, 0, 3)))
   \<and> (advance ^^ (26 * 26)) (0, 25, 2) = (0, 25, 3)"
proof -
  have v: "validator (1, 26, 3) (rotor1, rotor2, rotor3) (upper upper_latin1 [])
      = Inr ((1, 26, 3), (rotor1, rotor2, rotor3), Map.empty)"
    by (simp add: validator_def upper_def plugboard_def length_abc rotors_distinct)
  have w: "wirings (rotor1, rotor2, rotor3)"
    by (simp add: wirings_def wiring_rotor1 wiring_rotor2 wiring_rotor3)
  have r: "in_range (0, 25, 2)"
    by (simp add: in_range_def)
  have n: "length (letters (upper upper_latin1 (str ''The quick brown fox jumps over 1 A!''))) = 26"
    by (simp add: letters_def upper_def upper_latin1_def str_def in_abc)
  have s: "start_offsets (1, 26, 3) = (0, 25, 2)"
    by (simp add: start_offsets_def)
  note t = odometer_stepping [OF v w, of "str ''The quick brown fox jumps over 1 A!''"
      _ _ _ 0 25 2 25 2]
  from t have "\<exists>result. enigma_run upper_latin1 (str ''The quick brown fox jumps over 1 A!'')
      (1, 26, 3) (rotor1, rotor2, rotor3) [] = Inr (result, (advance ^^ 26) (0, 25, 2))"
    unfolding n s by blast
  moreover have "(advance ^^ 26) (0, 25, 2) = (0, 0, 3)"
  proof -
    from t r have "(advance ^^ 26) (0, 25, 2)
        = (0, (25 + 1) mod 26, if (25::int) = 25 then (2 + 1) mod 26 else 2)"
      by blast
    also have "\<dots> = (0, 0, 3)"
      by simp
    finally show ?thesis .
  qed
  moreover have "(advance ^^ (26 * 26)) (0, 25, 2) = (0, 25, 3)"
  proof -
    from t r have "(advance ^^ (26 * 26)) (0, 25, 2) = (0, 25, (2 + 1) mod 26)"
      by blast
    also have "\<dots> = (0, 25, 3)"
      by simp
    finally show ?thesis .
  qed
  ultimately show ?thesis
    using v w r n by (simp only:)
qed

end
